theory Spec2Isabelle
  imports Main "HOL-Library.Sublist"
begin

section \<open>Python strings\<close>

text \<open>
  A Python \<^verbatim>\<open>str\<close> is a sequence of Unicode code points; \<^verbatim>\<open>len\<close>,
  \<^verbatim>\<open>count\<close>, slicing and the offsets of \<^verbatim>\<open>enumerate\<close> all count code
  points. The model is a list of code points (natural numbers). \<open>cp\<close> is Python's
  \<^verbatim>\<open>ord\<close> on a character literal and \<open>ustr\<close> turns a literal into a string.
\<close>

type_synonym pystr = "nat list"

definition cp :: "char \<Rightarrow> nat" where
  "cp c = of_char c"

definition ustr :: "string \<Rightarrow> pystr" where
  "ustr s = map cp s"

text \<open>
  \<^verbatim>\<open>str.isspace\<close> on one character: the code points that \<^verbatim>\<open>str.strip()\<close>
  removes (CPython's \<^verbatim>\<open>_PyUnicode_IsWhitespace\<close>).
\<close>

definition isspace :: "nat \<Rightarrow> bool" where
  "isspace c \<longleftrightarrow>
     (9 \<le> c \<and> c \<le> 13) \<or> (28 \<le> c \<and> c \<le> 32) \<or> c = 133 \<or> c = 160 \<or> c = 5760 \<or>
     (8192 \<le> c \<and> c \<le> 8202) \<or> c = 8232 \<or> c = 8233 \<or> c = 8239 \<or> c = 8287 \<or> c = 12288"

definition lstrip :: "pystr \<Rightarrow> pystr" where
  "lstrip s = dropWhile isspace s"

definition rstrip :: "pystr \<Rightarrow> pystr" where
  "rstrip s = rev (dropWhile isspace (rev s))"

definition strip :: "pystr \<Rightarrow> pystr" where
  "strip s = rstrip (lstrip s)"

text \<open>\<^verbatim>\<open>s.rstrip(',')\<close>: every trailing occurrence of the one character is removed.\<close>

definition rstrip_char :: "nat \<Rightarrow> pystr \<Rightarrow> pystr" where
  "rstrip_char c s = rev (dropWhile (\<lambda>x. x = c) (rev s))"

definition startswith :: "pystr \<Rightarrow> pystr \<Rightarrow> bool" where
  "startswith s p \<longleftrightarrow> take (length p) s = p"

text \<open>
  \<^verbatim>\<open>s.split(sep)\<close> and \<^verbatim>\<open>sep.join(lines)\<close> for a one-character separator. The
  split of any string has at least one piece, so the first case of the \<open>case\<close> is
  never taken (lemma \<open>split_not_Nil\<close>).
\<close>

fun split :: "nat \<Rightarrow> pystr \<Rightarrow> pystr list" where
  "split sep [] = [[]]"
| "split sep (c # cs) =
     (if c = sep then [] # split sep cs
      else (case split sep cs of [] \<Rightarrow> [[c]] | l # ls \<Rightarrow> (c # l) # ls))"

fun join :: "nat \<Rightarrow> pystr list \<Rightarrow> pystr" where
  "join sep [] = []"
| "join sep [l] = l"
| "join sep (l # ls) = l @ sep # join sep ls"

section \<open>The fence stripper (the first part of \<^verbatim>\<open>_safe_json\<close>)\<close>

definition fence :: pystr where
  "fence = ustr ''```''"

definition NL :: nat where
  "NL = 10"

text \<open>
  The \<^verbatim>\<open>for line in lines\<close> loop, with its two variables \<^verbatim>\<open>in_json\<close> and
  \<^verbatim>\<open>json_lines\<close> passed along; \<^verbatim>\<open>break\<close> returns the lines collected so far.
\<close>

fun fence_loop :: "bool \<Rightarrow> pystr list \<Rightarrow> pystr list \<Rightarrow> pystr list" where
  "fence_loop in_json json_lines [] = json_lines"
| "fence_loop in_json json_lines (line # lines) =
     (let stripped = strip line in
      if startswith stripped fence \<and> \<not> in_json then fence_loop True json_lines lines
      else if stripped = fence then json_lines
      else if in_json then fence_loop in_json (json_lines @ [line]) lines
      else fence_loop in_json json_lines lines)"

definition strip_fence :: "pystr \<Rightarrow> pystr" where
  "strip_fence text0 =
     (let text = strip text0 in
      if startswith text fence then join NL (fence_loop False [] (split NL text))
      else text)"

section \<open>The repair attempt: \<^verbatim>\<open>_try_fix_json\<close>\<close>

record scan_state =
  in_string :: bool
  escape_next :: bool
  last_good_pos :: nat

definition scan_step :: "scan_state \<Rightarrow> nat \<times> nat \<Rightarrow> scan_state" where
  "scan_step st ic =
     (let i = fst ic; char = snd ic in
      if escape_next st then st\<lparr>escape_next := False\<rparr>
      else if char = cp CHR 0x5C then st\<lparr>escape_next := True\<rparr>
      else
        let st1 = (if char = cp CHR 0x22 then st\<lparr>in_string := \<not> in_string st\<rparr> else st) in
        if \<not> in_string st1 \<and> char \<in> set (ustr '',]}'') then st1\<lparr>last_good_pos := i + 1\<rparr>
        else st1)"

definition scan :: "pystr \<Rightarrow> scan_state" where
  "scan text =
     foldl scan_step \<lparr>in_string = False, escape_next = False, last_good_pos = 0\<rparr>
       (enumerate 0 text)"

text \<open>
  \<^verbatim>\<open>']' * n\<close> is the empty string when \<open>n\<close> is zero or negative, hence the
  \<open>nat\<close> of the integer difference. The result \<open>None\<close> is Python's \<^verbatim>\<open>None\<close>.
\<close>

definition try_fix_json :: "pystr \<Rightarrow> pystr option" where
  "try_fix_json text0 =
     (if text0 = [] then None
      else
        let text = strip text0;
            open_braces = int (count_list text (cp CHR ''{''));
            close_braces = int (count_list text (cp CHR ''}''));
            open_brackets = int (count_list text (cp CHR ''[''));
            close_brackets = int (count_list text (cp CHR '']''))
        in
        if open_braces > close_braces \<or> open_brackets > close_brackets then
          let st = scan text;
              text = (if in_string st \<and> last_good_pos st > 0
                      then take (last_good_pos st) text else text);
              open_braces = int (count_list text (cp CHR ''{''));
              close_braces = int (count_list text (cp CHR ''}''));
              open_brackets = int (count_list text (cp CHR ''[''));
              close_brackets = int (count_list text (cp CHR '']''));
              missing_brackets = replicate (nat (open_brackets - close_brackets)) (cp CHR '']'');
              missing_braces = replicate (nat (open_braces - close_braces)) (cp CHR ''}'')
          in Some (rstrip_char (cp CHR '','') text @ missing_brackets @ missing_braces)
        else None)"

section \<open>Decoded values and \<^verbatim>\<open>json.loads\<close>\<close>

text \<open>
  \<^verbatim>\<open>json.loads\<close> belongs to Python's standard library, not to the repository. The
  model follows \<^verbatim>\<open>json/decoder.py\<close> and \<^verbatim>\<open>json/scanner.py\<close> of CPython 3.11 with
  the default settings (\<^verbatim>\<open>strict=True\<close>, no hooks), function by function, with the
  messages and offsets of the C accelerator where the two differ (an invalid escape, a
  control character inside a string), and with digits read as the ASCII digits.

  A decoded value is a Python object: \<^verbatim>\<open>None\<close>, a \<^verbatim>\<open>bool\<close>, an \<^verbatim>\<open>int\<close>, a
  \<^verbatim>\<open>float\<close>, a \<^verbatim>\<open>str\<close>, a \<^verbatim>\<open>list\<close> or a \<^verbatim>\<open>dict\<close> with string keys. A
  \<^verbatim>\<open>dict\<close> is the list of its items in insertion order, its keys distinct. A float is
  kept as the number text that \<^verbatim>\<open>float()\<close> reads (\<open>JFloat\<close>) or as one of the
  three constants; no arithmetic on floats is modelled.
\<close>

datatype json =
    JNull
  | JBool bool
  | JInt int
  | JFloat pystr
  | JNaN
  | JInfinity
  | JNegInfinity
  | JString pystr
  | JArray "json list"
  | JObject "(pystr \<times> json) list"

text \<open>
  What a call can raise. \<^verbatim>\<open>JSONDecodeError(msg, doc, pos)\<close> is the only exception
  that \<^verbatim>\<open>_safe_json\<close> catches. \<^verbatim>\<open>json.loads\<close> raises two more, which are not
  \<^verbatim>\<open>JSONDecodeError\<close>s: \<^verbatim>\<open>ValueError\<close> when \<^verbatim>\<open>int()\<close> is given more digits than
  the interpreter's limit, and \<^verbatim>\<open>RecursionError\<close> when arrays and objects are nested
  deeper than the interpreter allows. Their messages are never read and are left out.
  The scanner below also recurses on a counter (\<open>fuel\<close>) that \<^verbatim>\<open>json_loads\<close> sets
  from the length of the text; \<open>Exhausted\<close> is what running out of it would raise
  (it never does, lemma \<open>json_loads_not_Exhausted\<close>).
\<close>

datatype exn =
    JSONDecodeError (msg: pystr) (doc: pystr) (pos: nat)
  | ValueError
  | RecursionError
  | Exhausted

text \<open>
  \<^verbatim>\<open>sys.get_int_max_str_digits()\<close>, CPython's default: \<^verbatim>\<open>int()\<close> of a decimal text
  with more digits raises \<^verbatim>\<open>ValueError\<close>.
\<close>

definition int_max_str_digits :: nat where
  "int_max_str_digits = 4300"

text \<open>
  How many arrays and objects can be open at once. The accelerator's scanner enters
  a recursive call (\<^verbatim>\<open>Py_EnterRecursiveCall\<close>) at every \<^verbatim>\<open>[\<close> and \<^verbatim>\<open>{\<close>, so the
  bound is the interpreter's recursion limit less the frames in use. The figure is that
  of CPython 3.11 with the default limit of 1000 when \<^verbatim>\<open>_safe_json\<close> is called from
  the top level of a module: 994 nested arrays decode and 995 raise. A caller deeper in
  the stack leaves less. The proofs of the general theorems below do not use the
  figure, and the texts evaluated below nest at most two deep.
\<close>

definition recursion_headroom :: nat where
  "recursion_headroom = 994"

text \<open>
  Inside the scanner a position is kept as the number of characters left from it to the
  end of the document; \<open>decode\<close> turns it into an offset from the start.
  \<open>StopIteration\<close> is the scanner's own signal for "no value starts here".
\<close>

datatype scan_exn =
    StopIteration nat
  | Raise pystr nat
  | RaiseValueError
  | RaiseRecursionError
  | OutOfFuel

type_synonym scanned = "scan_exn + json \<times> pystr"

text \<open>\<^verbatim>\<open>dict(pairs)\<close>: a later pair with a key already present replaces its value in place.\<close>

fun dict_setitem :: "(pystr \<times> json) list \<Rightarrow> pystr \<times> json \<Rightarrow> (pystr \<times> json) list" where
  "dict_setitem [] kv = [kv]"
| "dict_setitem (p # ps) kv =
     (if fst p = fst kv then (fst p, snd kv) # ps else p # dict_setitem ps kv)"

definition dict :: "(pystr \<times> json) list \<Rightarrow> (pystr \<times> json) list" where
  "dict pairs = foldl dict_setitem [] pairs"

definition WHITESPACE_STR :: pystr where
  "WHITESPACE_STR = [cp CHR '' '', 9, 10, 13]"

text \<open>\<^verbatim>\<open>WHITESPACE.match(s, end).end()\<close>: the text from the first character that is not JSON white space.\<close>

definition skip_ws :: "pystr \<Rightarrow> pystr" where
  "skip_ws s = dropWhile (\<lambda>c. c \<in> set WHITESPACE_STR) s"

definition isdigit :: "nat \<Rightarrow> bool" where
  "isdigit c \<longleftrightarrow> cp CHR ''0'' \<le> c \<and> c \<le> cp CHR ''9''"

definition hexval :: "nat \<Rightarrow> nat option" where
  "hexval c =
     (if cp CHR ''0'' \<le> c \<and> c \<le> cp CHR ''9'' then Some (c - cp CHR ''0'')
      else if cp CHR ''a'' \<le> c \<and> c \<le> cp CHR ''f'' then Some (c - cp CHR ''a'' + 10)
      else if cp CHR ''A'' \<le> c \<and> c \<le> cp CHR ''F'' then Some (c - cp CHR ''A'' + 10)
      else None)"

text \<open>
  \<^verbatim>\<open>_decode_uXXXX\<close> on the text after the \<^verbatim>\<open>u\<close>: four hexadecimal digits
  with at least one more character after them (the accelerator's test), or no value.
\<close>

definition decode_uXXXX :: "pystr \<Rightarrow> nat option" where
  "decode_uXXXX s =
     (if length s \<le> 4 then None
      else
        (case map hexval (take 4 s) of
           [Some a, Some b, Some c, Some d] \<Rightarrow> Some (((a * 16 + b) * 16 + c) * 16 + d)
         | _ \<Rightarrow> None))"

definition BACKSLASH :: "nat \<Rightarrow> nat option" where
  "BACKSLASH esc =
     (if esc = cp CHR 0x22 then Some (cp CHR 0x22)
      else if esc = cp CHR 0x5C then Some (cp CHR 0x5C)
      else if esc = cp CHR ''/'' then Some (cp CHR ''/'')
      else if esc = cp CHR ''b'' then Some 8
      else if esc = cp CHR ''f'' then Some 12
      else if esc = cp CHR ''n'' then Some 10
      else if esc = cp CHR ''r'' then Some 13
      else if esc = cp CHR ''t'' then Some 9
      else None)"

text \<open>
  \<^verbatim>\<open>scanstring\<close>: the text \<open>s\<close> starts just after the opening quote, which lies
  \<open>begin\<close> characters before the end of the document; \<open>chunks\<close> collects the
  decoded characters. The regular expression of the source stops at the first quote,
  backslash or control character; the model reads one character at a time.
\<close>

fun py_scanstring :: "nat \<Rightarrow> pystr \<Rightarrow> pystr \<Rightarrow> scan_exn + pystr \<times> pystr" where
  "py_scanstring begin chunks [] = Inl (Raise (ustr ''Unterminated string starting at'') begin)"
| "py_scanstring begin chunks (c # s) =
     (if c = cp CHR 0x22 then Inr (chunks, s)
      else if c = cp CHR 0x5C then
        (case s of
           [] \<Rightarrow> Inl (Raise (ustr ''Unterminated string starting at'') begin)
         | esc # s1 \<Rightarrow>
             if esc \<noteq> cp CHR ''u'' then
               (case BACKSLASH esc of
                  None \<Rightarrow> Inl (Raise (ustr ''Invalid '' @ [cp CHR 0x5C] @ ustr ''escape'') (Suc (length s)))
                | Some char \<Rightarrow> py_scanstring begin (chunks @ [char]) s1)
             else
               (case decode_uXXXX s1 of
                  None \<Rightarrow> Inl (Raise (ustr ''Invalid '' @ [cp CHR 0x5C] @ ustr ''uXXXX escape'') (length s))
                | Some uni \<Rightarrow>
                    let s2 = drop 4 s1 in
                    if 0xd800 \<le> uni \<and> uni \<le> 0xdbff \<and> take 2 s2 = [cp CHR 0x5C, cp CHR ''u''] then
                      (case decode_uXXXX (drop 2 s2) of
                         None \<Rightarrow>
                           Inl (Raise (ustr ''Invalid '' @ [cp CHR 0x5C] @ ustr ''uXXXX escape'')
                                  (length s2 - 1))
                       | Some uni2 \<Rightarrow>
                           if 0xdc00 \<le> uni2 \<and> uni2 \<le> 0xdfff then
                             py_scanstring begin
                               (chunks @ [0x10000 + ((uni - 0xd800) * 1024 + (uni2 - 0xdc00))])
                               (drop 6 s2)
                           else py_scanstring begin (chunks @ [uni]) s2)
                    else py_scanstring begin (chunks @ [uni]) s2))
      else if c \<le> 0x1f then
        Inl (Raise (ustr ''Invalid control character at'') (Suc (length s)))
      else py_scanstring begin (chunks @ [c]) s)"

definition parse_string :: "pystr \<Rightarrow> scanned" where
  "parse_string string =
     (case py_scanstring (length string) [] (drop 1 string) of
        Inl e \<Rightarrow> Inl e
      | Inr (str, rest) \<Rightarrow> Inr (JString str, rest))"

text \<open>
  \<^verbatim>\<open>int(lexeme)\<close> on an optional minus sign followed by decimal digits: the number,
  or \<^verbatim>\<open>ValueError\<close> when there are more than \<open>int_max_str_digits\<close> digits.
\<close>

definition parse_int :: "pystr \<Rightarrow> scan_exn + int" where
  "parse_int lexeme =
     (let digits = (if take 1 lexeme = ustr ''-'' then drop 1 lexeme else lexeme) in
      if length digits > int_max_str_digits then Inl RaiseValueError
      else if take 1 lexeme = ustr ''-''
        then Inr (- int (foldl (\<lambda>n d. 10 * n + (d - cp CHR ''0'')) 0 digits))
      else Inr (int (foldl (\<lambda>n d. 10 * n + (d - cp CHR ''0'')) 0 digits)))"

text \<open>
  \<^verbatim>\<open>NUMBER_RE.match\<close>, the pattern
  \<^verbatim>\<open>(-?(?:0|[1-9]\d*))(\.\d+)?([eE][-+]?\d+)?\<close>: the three groups (an absent group
  is the empty text) and the text after the match, or no match.
\<close>

definition match_number :: "pystr \<Rightarrow> (pystr \<times> pystr \<times> pystr \<times> pystr) option" where
  "match_number s =
     (let sign = (if take 1 s = ustr ''-'' then ustr ''-'' else []);
          s1 = drop (length sign) s
      in case s1 of
           [] \<Rightarrow> None
         | d # s2 \<Rightarrow>
             if \<not> isdigit d then None
             else
               let digits = (if d = cp CHR ''0'' then [] else takeWhile isdigit s2);
                   integer = sign @ d # digits;
                   s3 = drop (length digits) s2;
                   frac = (case s3 of
                             [] \<Rightarrow> []
                           | p # s4 \<Rightarrow> if p = cp CHR ''.'' \<and> takeWhile isdigit s4 \<noteq> []
                                       then p # takeWhile isdigit s4 else []);
                   s5 = drop (length frac) s3;
                   exp = (case s5 of
                            [] \<Rightarrow> []
                          | e # s6 \<Rightarrow>
                              if e = cp CHR ''e'' \<or> e = cp CHR ''E'' then
                                (let sg = (if take 1 s6 = ustr ''-'' \<or> take 1 s6 = ustr ''+''
                                           then take 1 s6 else []);
                                     ds = takeWhile isdigit (drop (length sg) s6)
                                 in if ds \<noteq> [] then e # sg @ ds else [])
                              else []);
                   s7 = drop (length exp) s5
               in Some (integer, frac, exp, s7))"

text \<open>The branches of \<^verbatim>\<open>_scan_once\<close> that do not recurse: the constants and the numbers.\<close>

definition scan_constant :: "pystr \<Rightarrow> scanned" where
  "scan_constant string =
     (let nextchar = take 1 string in
      if nextchar = ustr ''n'' \<and> take 4 string = ustr ''null'' then Inr (JNull, drop 4 string)
      else if nextchar = ustr ''t'' \<and> take 4 string = ustr ''true'' then Inr (JBool True, drop 4 string)
      else if nextchar = ustr ''f'' \<and> take 5 string = ustr ''false'' then Inr (JBool False, drop 5 string)
      else
        (case match_number string of
           Some (integer, frac, exp, rest) \<Rightarrow>
             if frac \<noteq> [] \<or> exp \<noteq> [] then Inr (JFloat (integer @ frac @ exp), rest)
             else
               (case parse_int integer of
                  Inl e \<Rightarrow> Inl e
                | Inr n \<Rightarrow> Inr (JInt n, rest))
         | None \<Rightarrow>
             if nextchar = ustr ''N'' \<and> take 3 string = ustr ''NaN'' then Inr (JNaN, drop 3 string)
             else if nextchar = ustr ''I'' \<and> take 8 string = ustr ''Infinity''
               then Inr (JInfinity, drop 8 string)
             else if nextchar = ustr ''-'' \<and> take 9 string = ustr ''-Infinity''
               then Inr (JNegInfinity, drop 9 string)
             else Inl (StopIteration (length string))))"

text \<open>
  \<^verbatim>\<open>except StopIteration as err: raise JSONDecodeError("Expecting value", s, err.value)\<close>
\<close>

definition expecting_value :: "scan_exn + 'a \<Rightarrow> scan_exn + 'a" where
  "expecting_value r =
     (case r of
        Inl (StopIteration left) \<Rightarrow> Inl (Raise (ustr ''Expecting value'') left)
      | _ \<Rightarrow> r)"

text \<open>
  \<^verbatim>\<open>JSONObject\<close> and \<^verbatim>\<open>JSONArray\<close> take the scanner as an argument, as in the
  source. The \<^verbatim>\<open>while True\<close> loop of each is a function of its own; \<open>s\<close> is the
  text from the current position on.
\<close>

fun JSONObject_loop :: "(pystr \<Rightarrow> scanned) \<Rightarrow> nat \<Rightarrow> (pystr \<times> json) list \<Rightarrow> pystr \<Rightarrow> scanned" where
  "JSONObject_loop scan_once 0 pairs s = Inl OutOfFuel"
| "JSONObject_loop scan_once (Suc fuel) pairs s =
     (case py_scanstring (Suc (length s)) [] s of
        Inl e \<Rightarrow> Inl e
      | Inr (key, s1) \<Rightarrow>
          let s2 = skip_ws s1 in
          if take 1 s2 \<noteq> ustr '':'' then Inl (Raise (ustr ''Expecting ':' delimiter'') (length s2))
          else
            (case expecting_value (scan_once (skip_ws (drop 1 s2))) of
               Inl e \<Rightarrow> Inl e
             | Inr (value, s4) \<Rightarrow>
                 let pairs = pairs @ [(key, value)];
                     s5 = skip_ws s4
                 in if take 1 s5 = ustr ''}'' then Inr (JObject (dict pairs), drop 1 s5)
                    else if take 1 s5 \<noteq> ustr '',''
                      then Inl (Raise (ustr ''Expecting ',' delimiter'') (length s5))
                    else
                      let s6 = skip_ws (drop 1 s5) in
                      if take 1 s6 \<noteq> [cp CHR 0x22]
                        then Inl (Raise (ustr ''Expecting property name enclosed in double quotes'')
                                    (length s6))
                      else JSONObject_loop scan_once fuel pairs (drop 1 s6)))"

definition JSONObject :: "(pystr \<Rightarrow> scanned) \<Rightarrow> nat \<Rightarrow> pystr \<Rightarrow> scanned" where
  "JSONObject scan_once fuel s =
     (let s1 = skip_ws s in
      if take 1 s1 = ustr ''}'' then Inr (JObject [], drop 1 s1)
      else if take 1 s1 \<noteq> [cp CHR 0x22]
        then Inl (Raise (ustr ''Expecting property name enclosed in double quotes'') (length s1))
      else JSONObject_loop scan_once fuel [] (drop 1 s1))"

fun JSONArray_loop :: "(pystr \<Rightarrow> scanned) \<Rightarrow> nat \<Rightarrow> json list \<Rightarrow> pystr \<Rightarrow> scanned" where
  "JSONArray_loop scan_once 0 values s = Inl OutOfFuel"
| "JSONArray_loop scan_once (Suc fuel) values s =
     (case expecting_value (scan_once s) of
        Inl e \<Rightarrow> Inl e
      | Inr (value, s1) \<Rightarrow>
          let values = values @ [value];
              s2 = skip_ws s1
          in if take 1 s2 = ustr '']'' then Inr (JArray values, drop 1 s2)
             else if take 1 s2 \<noteq> ustr '',''
               then Inl (Raise (ustr ''Expecting ',' delimiter'') (length s2))
             else JSONArray_loop scan_once fuel values (skip_ws (drop 1 s2)))"

definition JSONArray :: "(pystr \<Rightarrow> scanned) \<Rightarrow> nat \<Rightarrow> pystr \<Rightarrow> scanned" where
  "JSONArray scan_once fuel s =
     (let s1 = skip_ws s in
      if take 1 s1 = ustr '']'' then Inr (JArray [], drop 1 s1)
      else JSONArray_loop scan_once fuel [] s1)"

text \<open>
  \<^verbatim>\<open>_scan_once\<close>. \<open>depth\<close> is the number of arrays and objects that may still be
  entered: at zero, a \<^verbatim>\<open>[\<close> or \<^verbatim>\<open>{\<close> raises \<^verbatim>\<open>RecursionError\<close>. The fuel bounds
  the recursion of the model: the nesting and, in each loop, the number of members.
\<close>

fun scan_once :: "nat \<Rightarrow> nat \<Rightarrow> pystr \<Rightarrow> scanned" where
  "scan_once 0 depth string = Inl OutOfFuel"
| "scan_once (Suc fuel) depth string =
     (if string = [] then Inl (StopIteration 0)
      else if take 1 string = [cp CHR 0x22] then parse_string string
      else if take 1 string = ustr ''{'' then
        (if depth = 0 then Inl RaiseRecursionError
         else JSONObject (\<lambda>s. scan_once fuel (depth - 1) s) fuel (drop 1 string))
      else if take 1 string = ustr ''['' then
        (if depth = 0 then Inl RaiseRecursionError
         else JSONArray (\<lambda>s. scan_once fuel (depth - 1) s) fuel (drop 1 string))
      else scan_constant string)"

definition raw_decode :: "pystr \<Rightarrow> scanned" where
  "raw_decode s = expecting_value (scan_once (Suc (length s)) recursion_headroom s)"

text \<open>\<^verbatim>\<open>JSONDecoder.decode\<close>: white space, one value, white space, and nothing else.\<close>

definition decode :: "pystr \<Rightarrow> exn + json" where
  "decode s =
     (case raw_decode (skip_ws s) of
        Inl OutOfFuel \<Rightarrow> Inl Exhausted
      | Inl RaiseValueError \<Rightarrow> Inl ValueError
      | Inl RaiseRecursionError \<Rightarrow> Inl RecursionError
      | Inl (Raise m left) \<Rightarrow> Inl (JSONDecodeError m s (length s - left))
      | Inl (StopIteration left) \<Rightarrow> Inl (JSONDecodeError (ustr ''Expecting value'') s (length s - left))
      | Inr (obj, rest) \<Rightarrow>
          if skip_ws rest \<noteq> []
            then Inl (JSONDecodeError (ustr ''Extra data'') s (length s - length (skip_ws rest)))
          else Inr obj)"

definition json_loads :: "pystr \<Rightarrow> exn + json" where
  "json_loads s =
     (if take 1 s = [0xfeff]
        then Inl (JSONDecodeError (ustr ''Unexpected UTF-8 BOM (decode using utf-8-sig)'') s 0)
      else decode s)"

text \<open>
  \<^verbatim>\<open>str(e)\<close> for a \<^verbatim>\<open>JSONDecodeError\<close>: the message with the line, the column and
  the offset, as \<^verbatim>\<open>JSONDecodeError.__init__\<close> builds it.
\<close>

fun str_nat :: "nat \<Rightarrow> pystr" where
  "str_nat n = (if n < 10 then [cp CHR ''0'' + n] else str_nat (n div 10) @ [cp CHR ''0'' + n mod 10])"

definition errmsg :: "pystr \<Rightarrow> pystr \<Rightarrow> nat \<Rightarrow> pystr" where
  "errmsg m d p =
     (let lineno = count_list (take p d) NL + 1;
          colno = length (takeWhile (\<lambda>c. c \<noteq> NL) (rev (take p d))) + 1
      in m @ ustr '': line '' @ str_nat lineno @ ustr '' column '' @ str_nat colno
           @ ustr '' (char '' @ str_nat p @ ustr '')'')"

section \<open>The decoder: \<^verbatim>\<open>_safe_json\<close>\<close>

text \<open>The mapping returned when strict decoding and the repair both fail.\<close>

definition diagnostic :: "pystr \<Rightarrow> pystr \<Rightarrow> pystr \<Rightarrow> nat \<Rightarrow> json" where
  "diagnostic text m d p =
     JObject [(ustr ''raw_output'', JString text),
              (ustr ''parse_error'', JString (errmsg m d p)),
              (ustr ''error_position'', JInt (int p))]"

text \<open>
  The part of \<^verbatim>\<open>_safe_json\<close> after the fence has been removed. \<open>Inl\<close> is an
  exception that leaves the function: only \<^verbatim>\<open>JSONDecodeError\<close> is caught, by either
  \<^verbatim>\<open>except\<close> clause. \<^verbatim>\<open>if fixed_text:\<close> is false for \<^verbatim>\<open>None\<close> and for the empty
  string.
\<close>

definition decode_or_repair :: "pystr \<Rightarrow> exn + json" where
  "decode_or_repair text =
     (case json_loads text of
        Inr v \<Rightarrow> Inr v
      | Inl (JSONDecodeError m d p) \<Rightarrow>
          (case try_fix_json text of
             None \<Rightarrow> Inr (diagnostic text m d p)
           | Some fixed_text \<Rightarrow>
               if fixed_text = [] then Inr (diagnostic text m d p)
               else
                 (case json_loads fixed_text of
                    Inr v \<Rightarrow> Inr v
                  | Inl (JSONDecodeError m' d' p') \<Rightarrow> Inr (diagnostic text m d p)
                  | Inl ValueError \<Rightarrow> Inl ValueError
                  | Inl RecursionError \<Rightarrow> Inl RecursionError
                  | Inl Exhausted \<Rightarrow> Inl Exhausted))
      | Inl ValueError \<Rightarrow> Inl ValueError
      | Inl RecursionError \<Rightarrow> Inl RecursionError
      | Inl Exhausted \<Rightarrow> Inl Exhausted)"

definition safe_json :: "pystr \<Rightarrow> exn + json" where
  "safe_json text = decode_or_repair (strip_fence text)"

section \<open>The repair attempt in the words of the specification\<close>

text \<open>
  The condition under which a repair is attempted: the open count exceeds the close
  count for at least one of the two delimiter families.
\<close>

definition unbalanced :: "pystr \<Rightarrow> bool" where
  "unbalanced t \<longleftrightarrow>
     count_list t (cp CHR ''{'') > count_list t (cp CHR ''}'') \<or>
     count_list t (cp CHR ''['') > count_list t (cp CHR '']'')"

text \<open>
  The character scan as the specification describes it: a cursor that knows whether
  it is inside a quoted string, where a backslash hides the character after it, and
  that remembers the offset just after the last comma, close-bracket or close-brace
  seen outside a string (\<open>None\<close> while no such boundary has been recorded).
\<close>

fun spec_scan :: "bool \<Rightarrow> nat \<Rightarrow> nat option \<Rightarrow> pystr \<Rightarrow> bool \<times> nat option" where
  "spec_scan inside off boundary [] = (inside, boundary)"
| "spec_scan inside off boundary [c] =
     (if c = cp CHR 0x5C then (inside, boundary)
      else if c = cp CHR 0x22 then (\<not> inside, boundary)
      else if \<not> inside \<and> (c = cp CHR '','' \<or> c = cp CHR '']'' \<or> c = cp CHR ''}'')
        then (inside, Some (off + 1))
      else (inside, boundary))"
| "spec_scan inside off boundary (c # d # cs) =
     (if c = cp CHR 0x5C then spec_scan inside (off + 2) boundary cs
      else if c = cp CHR 0x22 then spec_scan (\<not> inside) (off + 1) boundary (d # cs)
      else if \<not> inside \<and> (c = cp CHR '','' \<or> c = cp CHR '']'' \<or> c = cp CHR ''}'')
        then spec_scan inside (off + 1) (Some (off + 1)) (d # cs)
      else spec_scan inside (off + 1) boundary (d # cs))"

text \<open>
  The repair candidate of the specification: truncate at the last clean boundary when
  the scan ends inside a string and a boundary was recorded, count the delimiters of
  what is left, drop the trailing commas, append the missing close-brackets and then
  the missing close-braces. The differences are differences of natural numbers: no
  closer is missing where the closers are not fewer than the openers.
\<close>

definition spec_repair_candidate :: "pystr \<Rightarrow> pystr" where
  "spec_repair_candidate t =
     (let (inside, boundary) = spec_scan False 0 None t;
          t' = (case boundary of None \<Rightarrow> t | Some p \<Rightarrow> if inside then take p t else t)
      in rstrip_char (cp CHR '','') t'
         @ replicate (count_list t' (cp CHR ''['') - count_list t' (cp CHR '']'')) (cp CHR '']'')
         @ replicate (count_list t' (cp CHR ''{'') - count_list t' (cp CHR ''}'')) (cp CHR ''}''))"

text \<open>
  The characters of a text that lie outside its quoted string literals (the quotes
  themselves left out; inside a string a backslash hides the next character).
\<close>

fun outside_strings :: "bool \<Rightarrow> pystr \<Rightarrow> pystr" where
  "outside_strings inside [] = []"
| "outside_strings inside (c # cs) =
     (if c = cp CHR 0x22 then outside_strings (\<not> inside) cs
      else if inside then outside_strings inside (if c = cp CHR 0x5C then drop 1 cs else cs)
      else c # outside_strings inside cs)"

text \<open>
  The characters that lie inside the quoted string literals of a text (the quotes that
  open and close a string left out; a backslash and the character it hides kept).
\<close>

fun inside_strings :: "bool \<Rightarrow> pystr \<Rightarrow> pystr" where
  "inside_strings inside [] = []"
| "inside_strings inside (c # cs) =
     (if c = cp CHR 0x22 then inside_strings (\<not> inside) cs
      else if inside then
        (if c = cp CHR 0x5C then c # take 1 cs @ inside_strings inside (drop 1 cs)
         else c # inside_strings inside cs)
      else inside_strings inside cs)"

definition boundary_of :: "scan_state \<Rightarrow> nat option" where
  "boundary_of st = (if last_good_pos st = 0 then None else Some (last_good_pos st))"

text \<open>
  A payload wrapped in a code fence, as the specification describes the input: the
  opening marker line (the marker and, after it, a tag such as \<^verbatim>\<open>json\<close>), the
  content lines, the closing marker line and, optionally, a commentary on the lines
  after it.
\<close>

definition fenced :: "pystr \<Rightarrow> pystr \<Rightarrow> pystr option \<Rightarrow> pystr" where
  "fenced tag content commentary =
     fence @ tag @ [NL] @ content @ [NL] @ fence @
       (case commentary of None \<Rightarrow> [] | Some c \<Rightarrow> NL # c)"


section \<open>Properties of the repair attempt\<close>

lemmas str_ev = ustr_def cp_def strip_def lstrip_def rstrip_def isspace_def rstrip_char_def startswith_def
  fence_def NL_def

lemmas fix_ev = try_fix_json_def scan_def scan_step_def enumerate_eq_zip upt_rec Let_def

lemma scan_step_simps:
  "escape_next st \<Longrightarrow> scan_step st (i, c) = st\<lparr>escape_next := False\<rparr>"
  "\<not> escape_next st \<Longrightarrow> c = cp CHR 0x5C \<Longrightarrow> scan_step st (i, c) = st\<lparr>escape_next := True\<rparr>"
  "\<not> escape_next st \<Longrightarrow> c \<noteq> cp CHR 0x5C \<Longrightarrow> c = cp CHR 0x22 \<Longrightarrow>
     scan_step st (i, c) = st\<lparr>in_string := \<not> in_string st\<rparr>"
  "\<not> escape_next st \<Longrightarrow> c \<noteq> cp CHR 0x5C \<Longrightarrow> c \<noteq> cp CHR 0x22 \<Longrightarrow>
     \<not> in_string st \<and> (c = cp CHR '','' \<or> c = cp CHR '']'' \<or> c = cp CHR ''}'') \<Longrightarrow>
     scan_step st (i, c) = st\<lparr>last_good_pos := i + 1\<rparr>"
  "\<not> escape_next st \<Longrightarrow> c \<noteq> cp CHR 0x5C \<Longrightarrow> c \<noteq> cp CHR 0x22 \<Longrightarrow>
     \<not> (\<not> in_string st \<and> (c = cp CHR '','' \<or> c = cp CHR '']'' \<or> c = cp CHR ''}'')) \<Longrightarrow>
     scan_step st (i, c) = st"
  by (auto simp: scan_step_def ustr_def cp_def Let_def)

lemma enumerate_Cons: "enumerate i (c # cs) = (i, c) # enumerate (Suc i) cs"
  by simp

lemma scan_refines_aux:
  "(let st' = foldl scan_step st (enumerate i cs) in (in_string st', boundary_of st')) =
     (if escape_next st then spec_scan (in_string st) (i + 1) (boundary_of st) (tl cs)
      else spec_scan (in_string st) i (boundary_of st) cs)"
proof (induction cs arbitrary: st i)
  case Nil
  then show ?case by (simp add: Let_def)
next
  case (Cons c cs)
  show ?case
  proof (cases "escape_next st")
    case True
    then show ?thesis
      using Cons.IH [of "st\<lparr>escape_next := False\<rparr>" "Suc i"]
      by (simp add: scan_step_simps boundary_of_def)
  next
    case False
    note ne = this
    show ?thesis
    proof (cases "c = cp CHR 0x5C")
      case True
      then show ?thesis
        using ne Cons.IH [of "st\<lparr>escape_next := True\<rparr>" "Suc i"]
        by (cases cs) (simp_all add: scan_step_simps boundary_of_def)
    next
      case False
      note nb = this
      show ?thesis
      proof (cases "c = cp CHR 0x22")
        case True
        then show ?thesis
          using ne nb Cons.IH [of "st\<lparr>in_string := \<not> in_string st\<rparr>" "Suc i"]
          by (cases cs) (simp_all add: scan_step_simps boundary_of_def)
      next
        case False
        note nq = this
        show ?thesis
        proof (cases "\<not> in_string st \<and> (c = cp CHR '','' \<or> c = cp CHR '']'' \<or> c = cp CHR ''}'')")
          case True
          then show ?thesis
            using ne nb nq Cons.IH [of "st\<lparr>last_good_pos := i + 1\<rparr>" "Suc i"]
            by (cases cs) (simp_all add: scan_step_simps boundary_of_def)
        next
          case False
          then have "scan_step st (i, c) = st"
            using ne nb nq by (intro scan_step_simps(5)) simp_all
          then show ?thesis
            using False ne nb nq Cons.IH [of st "Suc i"]
            by (cases cs) (auto simp: boundary_of_def)
        qed
      qed
    qed
  qed
qed

lemma scan_refines: "(in_string (scan t), boundary_of (scan t)) = spec_scan False 0 None t"
  using scan_refines_aux [of "\<lparr>in_string = False, escape_next = False, last_good_pos = 0\<rparr>" 0 t]
  by (simp add: scan_def Let_def boundary_of_def)

lemma count_dropWhile: "\<not> P c \<Longrightarrow> count_list (dropWhile P xs) c = count_list xs c"
  by (induction xs) auto

lemma count_strip: "\<not> isspace c \<Longrightarrow> count_list (strip t) c = count_list t c"
  by (simp add: strip_def rstrip_def lstrip_def count_dropWhile)

lemma not_space_delims:
  "\<not> isspace (cp CHR ''{'')" "\<not> isspace (cp CHR ''}'')" "\<not> isspace (cp CHR ''['')" "\<not> isspace (cp CHR '']'')"
  by (simp_all add: isspace_def cp_def)

lemma unbalanced_strip: "unbalanced (strip t) = unbalanced t"
  by (simp add: unbalanced_def count_strip not_space_delims)

lemma unbalanced_nonempty: "unbalanced t \<Longrightarrow> t \<noteq> []"
  by (auto simp: unbalanced_def)

lemma nat_int_diff: "nat (int a - int b) = a - b"
  by simp

lemma try_fix_json_None_iff: "try_fix_json t = None \<longleftrightarrow> \<not> unbalanced t"
proof (cases "t = []")
  case True
  then show ?thesis by (simp add: try_fix_json_def unbalanced_def)
next
  case False
  have "unbalanced (strip t) = unbalanced t" by (rule unbalanced_strip)
  then show ?thesis
    using False by (auto simp: try_fix_json_def unbalanced_def Let_def)
qed

text \<open>
  Claim C2. Whenever a repair is attempted (the text is unbalanced), the candidate
  that \<^verbatim>\<open>_try_fix_json\<close> returns is the one the specification describes, built
  from the trimmed text: if the scan (in-string state, backslash escapes) ends inside
  an open string and a clean boundary was recorded, the text is cut at the last such
  boundary; the delimiters of the possibly cut text are counted again, its trailing
  commas are dropped, and the missing \<^verbatim>\<open>]\<close> followed by the missing \<^verbatim>\<open>}\<close>
  are appended, in that order. The trimming leaves a text without surrounding white
  space as it is.
\<close>

theorem try_fix_json_candidate:
  assumes "unbalanced t"
  shows "try_fix_json t = Some (spec_repair_candidate (strip t))"
proof -
  let ?s = "strip t"
  have ne: "t \<noteq> []" using assms by (rule unbalanced_nonempty)
  have ub: "unbalanced ?s" using assms by (simp add: unbalanced_strip)
  obtain ins b where sp: "spec_scan False 0 None ?s = (ins, b)"
    by (cases "spec_scan False 0 None ?s")
  have ins: "in_string (scan ?s) = ins" and b: "boundary_of (scan ?s) = b"
    using scan_refines [of ?s] sp by simp_all
  have cut: "(if in_string (scan ?s) \<and> last_good_pos (scan ?s) > 0
              then take (last_good_pos (scan ?s)) ?s else ?s) =
             (case b of None \<Rightarrow> ?s | Some p \<Rightarrow> if ins then take p ?s else ?s)"
    using ins b by (auto simp: boundary_of_def split: if_splits)
  show ?thesis
    using ne ub
    unfolding try_fix_json_def spec_repair_candidate_def sp Let_def cut unbalanced_def
    by (simp add: nat_int_diff del: of_nat_diff)
qed

theorem try_fix_json_candidate_witness:
  \<open>unbalanced (ustr ''{"a": [1, "x'') \<and>
   try_fix_json (ustr ''{"a": [1, "x'') = Some (ustr ''{"a": [1]}'')\<close>
proof -
  have h: \<open>unbalanced (ustr ''{"a": [1, "x'')\<close>
    by (simp add: unbalanced_def ustr_def cp_def)
  have e: \<open>spec_repair_candidate (strip (ustr ''{"a": [1, "x'')) = ustr ''{"a": [1]}''\<close>
    by (simp add: spec_repair_candidate_def str_ev)
  show ?thesis
    using h try_fix_json_candidate [OF h] e by simp
qed

lemma count_inside_outside:
  "c \<noteq> cp CHR 0x22 \<Longrightarrow>
   count_list x c = count_list (outside_strings i x) c + count_list (inside_strings i x) c"
proof (induction i x rule: outside_strings.induct)
  case (1 inside)
  then show ?case by simp
next
  case (2 inside d cs)
  show ?case
  proof (cases "d = cp CHR 0x22")
    case True
    with 2 show ?thesis by simp
  next
    case nq: False
    show ?thesis
    proof (cases inside)
      case False
      with 2 nq show ?thesis by simp
    next
      case True
      show ?thesis
      proof (cases "d = cp CHR 0x5C")
        case False
        with 2 nq True show ?thesis by simp
      next
        case bs: True
        have "count_list cs c = count_list (take 1 cs) c + count_list (drop 1 cs) c"
          by (cases cs) simp_all
        with 2 nq True bs show ?thesis by simp
      qed
    qed
  qed
qed

lemma try_fix_json_unbalanced:
  assumes "unbalanced t"
    and u: "u = (if in_string (scan (strip t)) \<and> 0 < last_good_pos (scan (strip t))
                 then take (last_good_pos (scan (strip t))) (strip t) else strip t)"
  shows "try_fix_json t =
     Some (rstrip_char (cp CHR '','') u
       @ replicate (count_list u (cp CHR ''['') - count_list u (cp CHR '']'')) (cp CHR '']'')
       @ replicate (count_list u (cp CHR ''{'') - count_list u (cp CHR ''}'')) (cp CHR ''}''))"
proof -
  have ne: "t \<noteq> []" using assms(1) by (rule unbalanced_nonempty)
  have ub: "unbalanced (strip t)" using assms(1) by (simp add: unbalanced_strip)
  show ?thesis
    using ne ub
    unfolding try_fix_json_def Let_def u [symmetric] unbalanced_def
    by (simp add: nat_int_diff del: of_nat_diff)
qed

text \<open>
  Claim C10. Both the unbalance test and the count of the missing closers look at
  every occurrence of the four delimiters, also those inside string literals. A
  repair is attempted exactly when the counts over the whole text are unbalanced.
  When it is, the closers appended to the kept text (the trimmed text, cut at the last
  boundary if the scan ends inside a string) are as many \<^verbatim>\<open>]\<close> as the kept text has
  \<^verbatim>\<open>[\<close> more than \<^verbatim>\<open>]\<close> and then as many \<^verbatim>\<open>}\<close> as it has \<^verbatim>\<open>{\<close> more than
  \<^verbatim>\<open>}\<close>, counted over all of it: the count of a character in a text is the sum of its
  counts outside and inside the string literals. For the texts \<^verbatim>\<open>{"a": "{",}\<close>
  and \<^verbatim>\<open>{"a": "["}\<close>, whose delimiters outside strings are balanced, the repair
  path is taken and one \<^verbatim>\<open>}\<close>, respectively one \<^verbatim>\<open>]\<close>, is appended for the
  delimiter inside the string.
\<close>

theorem try_fix_json_counts_inside_strings:
  \<open>(try_fix_json t = None \<longleftrightarrow> \<not> unbalanced t) \<and>
   (unbalanced t \<and>
    u = (if in_string (scan (strip t)) \<and> 0 < last_good_pos (scan (strip t))
         then take (last_good_pos (scan (strip t))) (strip t) else strip t) \<longrightarrow>
      try_fix_json t =
        Some (rstrip_char (cp CHR '','') u
          @ replicate (count_list u (cp CHR ''['') - count_list u (cp CHR '']'')) (cp CHR '']'')
          @ replicate (count_list u (cp CHR ''{'') - count_list u (cp CHR ''}'')) (cp CHR ''}''))) \<and>
   (c \<noteq> cp CHR 0x22 \<longrightarrow>
      count_list x c =
        count_list (outside_strings False x) c + count_list (inside_strings False x) c) \<and>
   count_list (outside_strings False (ustr ''{"a": "{",}'')) (cp CHR ''{'') =
     count_list (outside_strings False (ustr ''{"a": "{",}'')) (cp CHR ''}'') \<and>
   count_list (outside_strings False (ustr ''{"a": "{",}'')) (cp CHR ''['') =
     count_list (outside_strings False (ustr ''{"a": "{",}'')) (cp CHR '']'') \<and>
   try_fix_json (ustr ''{"a": "{",}'') = Some (ustr ''{"a": "{",}'' @ ustr ''}'') \<and>
   count_list (outside_strings False (ustr ''{"a": "["}'')) (cp CHR ''{'') =
     count_list (outside_strings False (ustr ''{"a": "["}'')) (cp CHR ''}'') \<and>
   count_list (outside_strings False (ustr ''{"a": "["}'')) (cp CHR ''['') =
     count_list (outside_strings False (ustr ''{"a": "["}'')) (cp CHR '']'') \<and>
   try_fix_json (ustr ''{"a": "["}'') = Some (ustr ''{"a": "["}'' @ ustr '']'')\<close>
proof -
  have a: "try_fix_json t = None \<longleftrightarrow> \<not> unbalanced t"
    by (rule try_fix_json_None_iff)
  have g: "unbalanced t \<and>
    u = (if in_string (scan (strip t)) \<and> 0 < last_good_pos (scan (strip t))
         then take (last_good_pos (scan (strip t))) (strip t) else strip t) \<longrightarrow>
      try_fix_json t =
        Some (rstrip_char (cp CHR '','') u
          @ replicate (count_list u (cp CHR ''['') - count_list u (cp CHR '']'')) (cp CHR '']'')
          @ replicate (count_list u (cp CHR ''{'') - count_list u (cp CHR ''}'')) (cp CHR ''}''))"
    using try_fix_json_unbalanced [of t u] by blast
  have h: "c \<noteq> cp CHR 0x22 \<longrightarrow>
      count_list x c =
        count_list (outside_strings False x) c + count_list (inside_strings False x) c"
    using count_inside_outside [of c x False] by blast
  have b: \<open>count_list (outside_strings False (ustr ''{"a": "{",}'')) (cp CHR ''{'') =
     count_list (outside_strings False (ustr ''{"a": "{",}'')) (cp CHR ''}'')\<close>
    by (simp add: str_ev)
  have c: \<open>count_list (outside_strings False (ustr ''{"a": "{",}'')) (cp CHR ''['') =
     count_list (outside_strings False (ustr ''{"a": "{",}'')) (cp CHR '']'')\<close>
    by (simp add: str_ev)
  have d: \<open>try_fix_json (ustr ''{"a": "{",}'') = Some (ustr ''{"a": "{",}'' @ ustr ''}'')\<close>
    by (simp add: fix_ev str_ev)
  have b': \<open>count_list (outside_strings False (ustr ''{"a": "["}'')) (cp CHR ''{'') =
     count_list (outside_strings False (ustr ''{"a": "["}'')) (cp CHR ''}'')\<close>
    by (simp add: str_ev)
  have c': \<open>count_list (outside_strings False (ustr ''{"a": "["}'')) (cp CHR ''['') =
     count_list (outside_strings False (ustr ''{"a": "["}'')) (cp CHR '']'')\<close>
    by (simp add: str_ev)
  have d': \<open>try_fix_json (ustr ''{"a": "["}'') = Some (ustr ''{"a": "["}'' @ ustr '']'')\<close>
    by (simp add: fix_ev str_ev)
  from a g h b c d b' c' d' show ?thesis by blast
qed

text \<open>
  The general part at the truncated text \<^verbatim>\<open>{"a": "[", "b": "x\<close>: the scan ends inside
  a string, the text is cut after the comma, and the bracket inside the first string
  is closed along with the brace.
\<close>

theorem try_fix_json_counts_inside_strings_witness:
  \<open>unbalanced (ustr ''{"a": "[", "b": "x'') \<and>
   (if in_string (scan (strip (ustr ''{"a": "[", "b": "x''))) \<and>
       0 < last_good_pos (scan (strip (ustr ''{"a": "[", "b": "x'')))
    then take (last_good_pos (scan (strip (ustr ''{"a": "[", "b": "x''))))
           (strip (ustr ''{"a": "[", "b": "x''))
    else strip (ustr ''{"a": "[", "b": "x'')) = ustr ''{"a": "[",'' \<and>
   count_list (ustr ''{"a": "[",'') (cp CHR ''['') = 1 \<and>
   count_list (outside_strings False (ustr ''{"a": "[",'')) (cp CHR ''['') = 0 \<and>
   count_list (inside_strings False (ustr ''{"a": "[",'')) (cp CHR ''['') = 1 \<and>
   try_fix_json (ustr ''{"a": "[", "b": "x'') = Some (ustr ''{"a": "["]}'')\<close>
proof -
  have h: \<open>unbalanced (ustr ''{"a": "[", "b": "x'')\<close>
    by (simp add: unbalanced_def ustr_def cp_def)
  have k: \<open>(if in_string (scan (strip (ustr ''{"a": "[", "b": "x''))) \<and>
       0 < last_good_pos (scan (strip (ustr ''{"a": "[", "b": "x'')))
    then take (last_good_pos (scan (strip (ustr ''{"a": "[", "b": "x''))))
           (strip (ustr ''{"a": "[", "b": "x''))
    else strip (ustr ''{"a": "[", "b": "x'')) = ustr ''{"a": "[",''\<close>
    by (simp add: fix_ev str_ev)
  have o: \<open>count_list (outside_strings False (ustr ''{"a": "[",'')) (cp CHR ''['') = 0\<close>
    \<open>count_list (inside_strings False (ustr ''{"a": "[",'')) (cp CHR ''['') = 1\<close>
    by (simp_all add: str_ev)
  have q: \<open>cp CHR ''['' \<noteq> cp CHR 0x22\<close> by (simp add: cp_def)
  have e: \<open>rstrip_char (cp CHR '','') (ustr ''{"a": "[",'')
      @ replicate (count_list (ustr ''{"a": "[",'') (cp CHR ''['')
                   - count_list (ustr ''{"a": "[",'') (cp CHR '']'')) (cp CHR '']'')
      @ replicate (count_list (ustr ''{"a": "[",'') (cp CHR ''{'')
                   - count_list (ustr ''{"a": "[",'') (cp CHR ''}'')) (cp CHR ''}'')
      = ustr ''{"a": "["]}''\<close>
    by (simp add: str_ev)
  from try_fix_json_counts_inside_strings
    [where t = \<open>ustr ''{"a": "[", "b": "x''\<close> and u = \<open>ustr ''{"a": "[",''\<close>
       and c = \<open>cp CHR ''[''\<close> and x = \<open>ustr ''{"a": "[",''\<close>]
    h k o q e show ?thesis by simp
qed

section \<open>The scanner never runs out of fuel\<close>

lemma length_skip_ws: "length (skip_ws s) \<le> length s"
  by (simp add: skip_ws_def length_dropWhile_le)

lemma py_scanstring_shorter: "py_scanstring b ch s = Inr (k, r) \<Longrightarrow> length r < length s"
proof (induction s arbitrary: ch k r rule: length_induct)
  case (1 s)
  have IH: "\<And>ys ch k r. py_scanstring b ch ys = Inr (k, r) \<Longrightarrow> length ys < length s \<Longrightarrow> length r < length ys"
    using "1.IH" by blast
  show ?case
  proof (cases s)
    case Nil
    with "1.prems" show ?thesis by simp
  next
    case (Cons c s')
    show ?thesis
    proof (cases "c = cp CHR 0x22 \<or> c \<noteq> cp CHR 0x5C")
      case True
      with "1.prems" Cons IH [of "ch @ [c]" s' k r] show ?thesis
        by (auto split: if_splits)
    next
      case False
      then have c: "c \<noteq> cp CHR 0x22" "c = cp CHR 0x5C" by auto
      show ?thesis
      proof (cases s')
        case Nil
        with "1.prems" Cons c show ?thesis by simp
      next
        case s': (Cons esc s1)
        show ?thesis
        proof (cases "esc = cp CHR ''u''")
          case False
          with "1.prems" Cons c s' obtain char where
            "py_scanstring b (ch @ [char]) s1 = Inr (k, r)"
            by (auto split: option.splits)
          from IH [OF this] Cons s' show ?thesis by simp
        next
          case True
          with "1.prems" Cons c s' obtain x ys where
            "py_scanstring b (ch @ [x]) ys = Inr (k, r)" and "ys = drop 4 s1 \<or> ys = drop 6 (drop 4 s1)"
            by (auto simp: Let_def split: option.splits if_splits)
          moreover from this(2) have "length ys \<le> length s1" by auto
          ultimately show ?thesis using IH [of "ch @ [x]" ys k r] Cons s' by simp
        qed
      qed
    qed
  qed
qed

lemma parse_string_shorter: "parse_string s = Inr (v, r) \<Longrightarrow> length r < length s"
  by (auto simp: parse_string_def split: sum.splits dest!: py_scanstring_shorter)

lemma match_number_shorter: "match_number s = Some (i, f, e, r) \<Longrightarrow> length r < length s"
proof -
  assume a: "match_number s = Some (i, f, e, r)"
  define sign where "sign = (if take 1 s = ustr ''-'' then ustr ''-'' else [])"
  show ?thesis
  proof (cases "drop (length sign) s")
    case Nil
    from a have False
      unfolding match_number_def Let_def sign_def [symmetric] Nil by simp
    then show ?thesis ..
  next
    case (Cons d s2)
    have l: "length s2 < length s"
    proof -
      have "length (drop (length sign) s) = Suc (length s2)" using Cons by simp
      then show ?thesis by simp
    qed
    show ?thesis
    proof (cases "isdigit d")
      case False
      with a have False
        unfolding match_number_def Let_def sign_def [symmetric] Cons by simp
      then show ?thesis ..
    next
      case True
      with a have "\<exists>n. drop n s2 = r"
        unfolding match_number_def Let_def sign_def [symmetric] Cons by simp blast
      then have "length r \<le> length s2" by auto
      with l show ?thesis by simp
    qed
  qed
qed


lemma scan_constant_shorter: "scan_constant s = Inr (v, r) \<Longrightarrow> length r < length s"
proof -
  assume a: "scan_constant s = Inr (v, r)"
  have lit: "\<And>n lit. 0 < n \<Longrightarrow> take n s = ustr lit \<Longrightarrow> lit \<noteq> [] \<Longrightarrow> length (drop n s) < length s"
    by (cases s) (auto simp: ustr_def)
  show ?thesis
  proof (cases "match_number s")
    case (Some q)
    obtain i f e r' where q: "q = (i, f, e, r')" by (cases q)
    from match_number_shorter Some q have "length r' < length s" by blast
    with a Some q lit show ?thesis
      by (auto simp: scan_constant_def Let_def split: if_splits sum.splits)
  next
    case None
    with a lit show ?thesis
      by (auto simp: scan_constant_def Let_def split: if_splits)
  qed
qed

lemma parse_int_fuel: "parse_int i \<noteq> Inl OutOfFuel"
  by (simp add: parse_int_def Let_def)

lemma scan_constant_fuel: "scan_constant s \<noteq> Inl OutOfFuel"
  using parse_int_fuel
  by (auto simp: scan_constant_def Let_def split: option.split prod.split sum.split)

lemma py_scanstring_fuel: "py_scanstring b ch s \<noteq> Inl OutOfFuel"
  by (induction b ch s rule: py_scanstring.induct)
     (simp_all add: Let_def split: option.split list.split)

lemma parse_string_fuel: "parse_string s \<noteq> Inl OutOfFuel"
  using py_scanstring_fuel [of "length s" "[]" "drop 1 s"]
  by (auto simp: parse_string_def split: sum.splits prod.splits)

lemma expecting_value_Inr: "expecting_value x = Inr y \<longleftrightarrow> x = Inr y"
  by (simp add: expecting_value_def split: sum.split scan_exn.split)

lemma expecting_value_fuel: "expecting_value x = Inl OutOfFuel \<longleftrightarrow> x = Inl OutOfFuel"
  by (simp add: expecting_value_def split: sum.split scan_exn.split)

lemma JSONArray_loop_shorter:
  assumes sc: "\<And>x v r. sc x = Inr (v, r) \<Longrightarrow> length r < length x"
  shows "JSONArray_loop sc k vals s = Inr (v, r) \<Longrightarrow> length r < length s"
proof (induction k arbitrary: vals s)
  case 0
  then show ?case by simp
next
  case (Suc k)
  from Suc.prems obtain val s1 where e: "expecting_value (sc s) = Inr (val, s1)"
    by (cases "expecting_value (sc s)") auto
  then have "sc s = Inr (val, s1)" by (simp add: expecting_value_Inr)
  then have l1: "length s1 < length s" by (rule sc)
  have l2: "length (skip_ws s1) \<le> length s1" by (rule length_skip_ws)
  from Suc.prems e consider
      (close) "r = drop 1 (skip_ws s1)"
    | (more) "JSONArray_loop sc k (vals @ [val]) (skip_ws (drop 1 (skip_ws s1))) = Inr (v, r)"
    by (auto simp: Let_def split: if_splits)
  then show ?case
  proof cases
    case close
    with l1 l2 show ?thesis by simp
  next
    case more
    from Suc.IH [OF more] have "length r < length (skip_ws (drop 1 (skip_ws s1)))" .
    also have "\<dots> \<le> length (drop 1 (skip_ws s1))" by (rule length_skip_ws)
    finally show ?thesis using l1 l2 by simp
  qed
qed

lemma JSONArray_loop_fuel:
  assumes sc: "\<And>x v r. sc x = Inr (v, r) \<Longrightarrow> length r < length x"
  shows "(\<And>x. length x \<le> length s \<Longrightarrow> sc x \<noteq> Inl OutOfFuel) \<Longrightarrow> length s < k \<Longrightarrow>
         JSONArray_loop sc k vals s \<noteq> Inl OutOfFuel"
proof (induction k arbitrary: vals s)
  case 0
  then show ?case by simp
next
  case (Suc k)
  show ?case
  proof (cases "expecting_value (sc s)")
    case (Inl e)
    have "e \<noteq> OutOfFuel"
      using Inl Suc.prems(1) [of s] by (auto simp: expecting_value_fuel)
    with Inl show ?thesis by simp
  next
    case (Inr p)
    obtain val s1 where p: "p = (val, s1)" by (cases p)
    with Inr have "sc s = Inr (val, s1)" by (simp add: expecting_value_Inr)
    then have l1: "length s1 < length s" by (rule sc)
    let ?s' = "skip_ws (drop 1 (skip_ws s1))"
    have "length ?s' \<le> length (drop 1 (skip_ws s1))" by (rule length_skip_ws)
    also have "\<dots> \<le> length (skip_ws s1)" by simp
    also have "\<dots> \<le> length s1" by (rule length_skip_ws)
    finally have l3: "length ?s' \<le> length s1" .
    have "JSONArray_loop sc k (vals @ [val]) ?s' \<noteq> Inl OutOfFuel"
    proof (rule Suc.IH)
      fix x :: pystr assume "length x \<le> length ?s'"
      with l3 l1 have "length x \<le> length s" by simp
      then show "sc x \<noteq> Inl OutOfFuel" by (rule Suc.prems(1))
    next
      from l3 l1 Suc.prems(2) show "length ?s' < k" by simp
    qed
    with Inr p show ?thesis by (simp add: Let_def)
  qed
qed

lemma JSONObject_loop_shorter:
  assumes sc: "\<And>x v r. sc x = Inr (v, r) \<Longrightarrow> length r < length x"
  shows "JSONObject_loop sc k pairs s = Inr (v, r) \<Longrightarrow> length r < length s"
proof (induction k arbitrary: pairs s)
  case 0
  then show ?case by simp
next
  case (Suc k)
  from Suc.prems obtain key s1 where k: "py_scanstring (Suc (length s)) [] s = Inr (key, s1)"
    by (cases "py_scanstring (Suc (length s)) [] s") auto
  then have l1: "length s1 < length s" by (rule py_scanstring_shorter)
  let ?s3 = "skip_ws (drop 1 (skip_ws s1))"
  have "length ?s3 \<le> length (drop 1 (skip_ws s1))" by (rule length_skip_ws)
  also have "\<dots> \<le> length (skip_ws s1)" by simp
  also have "\<dots> \<le> length s1" by (rule length_skip_ws)
  finally have l3: "length ?s3 \<le> length s1" .
  from Suc.prems k obtain val s4 where e: "expecting_value (sc ?s3) = Inr (val, s4)"
    by (cases "expecting_value (sc ?s3)") (auto simp: Let_def split: if_splits)
  then have "sc ?s3 = Inr (val, s4)" by (simp add: expecting_value_Inr)
  then have l4: "length s4 < length ?s3" by (rule sc)
  have l5: "length (skip_ws s4) \<le> length s4" by (rule length_skip_ws)
  let ?s7 = "drop 1 (skip_ws (drop 1 (skip_ws s4)))"
  have "length (skip_ws (drop 1 (skip_ws s4))) \<le> length (drop 1 (skip_ws s4))"
    by (rule length_skip_ws)
  then have l7: "length ?s7 \<le> length s4" using l5 by simp
  from Suc.prems k e consider
      (close) "r = drop 1 (skip_ws s4)"
    | (more) "JSONObject_loop sc k (pairs @ [(key, val)]) ?s7 = Inr (v, r)"
    by (auto simp: Let_def split: if_splits)
  then show ?case
  proof cases
    case close
    with l1 l3 l4 l5 show ?thesis by simp
  next
    case more
    from Suc.IH [OF more] l7 l4 l3 l1 show ?thesis by simp
  qed
qed

lemma JSONObject_loop_fuel:
  assumes sc: "\<And>x v r. sc x = Inr (v, r) \<Longrightarrow> length r < length x"
  shows "(\<And>x. length x \<le> length s \<Longrightarrow> sc x \<noteq> Inl OutOfFuel) \<Longrightarrow> length s < k \<Longrightarrow>
         JSONObject_loop sc k pairs s \<noteq> Inl OutOfFuel"
proof (induction k arbitrary: pairs s)
  case 0
  then show ?case by simp
next
  case (Suc k)
  show ?case
  proof (cases "py_scanstring (Suc (length s)) [] s")
    case (Inl e)
    with py_scanstring_fuel [of "Suc (length s)" "[]" s] show ?thesis by auto
  next
    case (Inr q)
    obtain key s1 where q: "q = (key, s1)" by (cases q)
    with Inr have l1: "length s1 < length s" by (auto dest: py_scanstring_shorter)
    let ?s3 = "skip_ws (drop 1 (skip_ws s1))"
    have "length ?s3 \<le> length (drop 1 (skip_ws s1))" by (rule length_skip_ws)
    also have "\<dots> \<le> length (skip_ws s1)" by simp
    also have "\<dots> \<le> length s1" by (rule length_skip_ws)
    finally have l3: "length ?s3 \<le> length s1" .
    show ?thesis
    proof (cases "expecting_value (sc ?s3)")
      case (Inl e)
      have "sc ?s3 \<noteq> Inl OutOfFuel" using l3 l1 by (intro Suc.prems(1)) simp
      with Inl have "e \<noteq> OutOfFuel" by (auto simp: expecting_value_fuel)
      with Inl Inr q show ?thesis by (simp add: Let_def)
    next
      case (Inr p)
      obtain val s4 where p: "p = (val, s4)" by (cases p)
      with Inr have "sc ?s3 = Inr (val, s4)" by (simp add: expecting_value_Inr)
      then have l4: "length s4 < length ?s3" by (rule sc)
      have l5: "length (skip_ws s4) \<le> length s4" by (rule length_skip_ws)
      let ?s7 = "drop 1 (skip_ws (drop 1 (skip_ws s4)))"
      have "length (skip_ws (drop 1 (skip_ws s4))) \<le> length (drop 1 (skip_ws s4))"
        by (rule length_skip_ws)
      then have l7: "length ?s7 \<le> length s4" using l5 by simp
      have "JSONObject_loop sc k (pairs @ [(key, val)]) ?s7 \<noteq> Inl OutOfFuel"
      proof (rule Suc.IH)
        fix x :: pystr assume "length x \<le> length ?s7"
        with l7 l4 l3 l1 have "length x \<le> length s" by simp
        then show "sc x \<noteq> Inl OutOfFuel" by (rule Suc.prems(1))
      next
        from l7 l4 l3 l1 Suc.prems(2) show "length ?s7 < k" by simp
      qed
      with Inr p \<open>py_scanstring (Suc (length s)) [] s = Inr q\<close> q show ?thesis
        by (simp add: Let_def)
    qed
  qed
qed

lemma scan_once_props:
  "(scan_once n dp s = Inr (v, r) \<longrightarrow> length r < length s) \<and>
   (length s < n \<longrightarrow> scan_once n dp s \<noteq> Inl OutOfFuel)"
proof (induction n arbitrary: s v r dp)
  case 0
  then show ?case by simp
next
  case (Suc n)
  have sc: "\<And>x v r. scan_once n (dp - 1) x = Inr (v, r) \<Longrightarrow> length r < length x"
    using Suc.IH by blast
  have nf: "\<And>x. length x < n \<Longrightarrow> scan_once n (dp - 1) x \<noteq> Inl OutOfFuel"
    using Suc.IH by blast
  have obj_s: "\<And>x. JSONObject (scan_once n (dp - 1)) n x = Inr (v, r) \<Longrightarrow> length r \<le> length x"
  proof -
    fix x assume a: "JSONObject (scan_once n (dp - 1)) n x = Inr (v, r)"
    have l: "length (skip_ws x) \<le> length x" by (rule length_skip_ws)
    from a consider "r = drop 1 (skip_ws x)"
      | "JSONObject_loop (scan_once n (dp - 1)) n [] (drop 1 (skip_ws x)) = Inr (v, r)"
      by (auto simp: JSONObject_def Let_def split: if_splits)
    then show "length r \<le> length x"
    proof cases
      case 1 with l show ?thesis by simp
    next
      case 2
      have "length r < length (drop 1 (skip_ws x))"
        by (rule JSONObject_loop_shorter [where sc = "scan_once n (dp - 1)" and v = v, OF sc 2])
      with l show ?thesis by simp
    qed
  qed
  have arr_s: "\<And>x. JSONArray (scan_once n (dp - 1)) n x = Inr (v, r) \<Longrightarrow> length r \<le> length x"
  proof -
    fix x assume a: "JSONArray (scan_once n (dp - 1)) n x = Inr (v, r)"
    have l: "length (skip_ws x) \<le> length x" by (rule length_skip_ws)
    from a consider "r = drop 1 (skip_ws x)"
      | "JSONArray_loop (scan_once n (dp - 1)) n [] (skip_ws x) = Inr (v, r)"
      by (auto simp: JSONArray_def Let_def split: if_splits)
    then show "length r \<le> length x"
    proof cases
      case 1 with l show ?thesis by simp
    next
      case 2
      have "length r < length (skip_ws x)"
        by (rule JSONArray_loop_shorter [where sc = "scan_once n (dp - 1)" and v = v, OF sc 2])
      with l show ?thesis by simp
    qed
  qed
  have obj_f: "\<And>x. length x < n \<Longrightarrow> JSONObject (scan_once n (dp - 1)) n x \<noteq> Inl OutOfFuel"
  proof -
    fix x :: pystr assume a: "length x < n"
    have l: "length (skip_ws x) \<le> length x" by (rule length_skip_ws)
    have "JSONObject_loop (scan_once n (dp - 1)) n [] (drop 1 (skip_ws x)) \<noteq> Inl OutOfFuel"
    proof (rule JSONObject_loop_fuel [where sc = "scan_once n (dp - 1)", OF sc])
      fix y :: pystr assume "length y \<le> length (drop 1 (skip_ws x))"
      with l a have "length y < n" by simp
      then show "scan_once n (dp - 1) y \<noteq> Inl OutOfFuel" by (rule nf)
    next
      from l a show "length (drop 1 (skip_ws x)) < n" by simp
    qed
    then show "JSONObject (scan_once n (dp - 1)) n x \<noteq> Inl OutOfFuel"
      by (simp add: JSONObject_def Let_def)
  qed
  have arr_f: "\<And>x. length x < n \<Longrightarrow> JSONArray (scan_once n (dp - 1)) n x \<noteq> Inl OutOfFuel"
  proof -
    fix x :: pystr assume a: "length x < n"
    have l: "length (skip_ws x) \<le> length x" by (rule length_skip_ws)
    have "JSONArray_loop (scan_once n (dp - 1)) n [] (skip_ws x) \<noteq> Inl OutOfFuel"
    proof (rule JSONArray_loop_fuel [where sc = "scan_once n (dp - 1)", OF sc])
      fix y :: pystr assume "length y \<le> length (skip_ws x)"
      with l a have "length y < n" by simp
      then show "scan_once n (dp - 1) y \<noteq> Inl OutOfFuel" by (rule nf)
    next
      from l a show "length (skip_ws x) < n" by simp
    qed
    then show "JSONArray (scan_once n (dp - 1)) n x \<noteq> Inl OutOfFuel"
      by (simp add: JSONArray_def Let_def)
  qed
  show ?case
  proof (cases s)
    case Nil
    then show ?thesis by simp
  next
    case (Cons c s')
    have 1: "scan_once (Suc n) dp s = Inr (v, r) \<longrightarrow> length r < length s"
      using Cons obj_s [of s'] arr_s [of s'] parse_string_shorter [of s v r]
        scan_constant_shorter [of s v r]
      by (auto split: if_splits)
    have 2: "length s < Suc n \<longrightarrow> scan_once (Suc n) dp s \<noteq> Inl OutOfFuel"
      using Cons obj_f [of s'] arr_f [of s'] parse_string_fuel [of s] scan_constant_fuel [of s]
      by (auto split: if_splits)
    from 1 2 show ?thesis by blast
  qed
qed

lemma raw_decode_fuel: "raw_decode s \<noteq> Inl OutOfFuel"
  using scan_once_props [of "Suc (length s)" recursion_headroom s]
  by (simp add: raw_decode_def expecting_value_fuel)

lemma json_loads_not_Exhausted: "json_loads s \<noteq> Inl Exhausted"
  using raw_decode_fuel [of "skip_ws s"]
  by (auto simp: json_loads_def decode_def split: sum.splits scan_exn.splits prod.splits)

lemma json_loads_cases:
  obtains (decoded) v where "json_loads s = Inr v"
  | (failed) m d p where "json_loads s = Inl (JSONDecodeError m d p)"
  | (value_error) "json_loads s = Inl ValueError"
  | (recursion_error) "json_loads s = Inl RecursionError"
proof (cases "json_loads s")
  case (Inl e)
  with json_loads_not_Exhausted [of s] failed value_error recursion_error show ?thesis
    by (cases e) auto
next
  case (Inr v)
  with decoded show ?thesis by blast
qed

lemma decode_or_repair_returns:
  "(\<exists>v. decode_or_repair t = Inr v) \<or> decode_or_repair t = Inl ValueError \<or>
   decode_or_repair t = Inl RecursionError"
proof (cases t rule: json_loads_cases)
  case (failed m d p)
  show ?thesis
  proof (cases "try_fix_json t")
    case None
    with failed show ?thesis by (simp add: decode_or_repair_def)
  next
    case (Some f)
    show ?thesis
      by (cases f rule: json_loads_cases) (simp_all add: decode_or_repair_def failed Some)
  qed
qed (simp_all add: decode_or_repair_def)

section \<open>The decoder on the scenarios of the specification\<close>

lemmas json_ev = json_loads_def decode_def raw_decode_def skip_ws_def WHITESPACE_STR_def expecting_value_def
  JSONObject_def JSONArray_def parse_string_def scan_constant_def match_number_def isdigit_def parse_int_def
  dict_def BACKSLASH_def hexval_def decode_uXXXX_def recursion_headroom_def int_max_str_digits_def
lemmas safe_ev = safe_json_def decode_or_repair_def diagnostic_def errmsg_def strip_fence_def

text \<open>
  Claim C1. The input \<^verbatim>\<open>{"a": [1, 2, 3], "b": "incomplete\<close> fails strict decoding; the
  repair cuts it after the comma that follows the close-bracket and appends one
  \<^verbatim>\<open>}\<close>; the decoder returns the mapping with the single key \<^verbatim>\<open>a\<close>, mapped to the
  sequence 1, 2, 3: no key \<^verbatim>\<open>b\<close>, no \<^verbatim>\<open>raw_output\<close>, no \<^verbatim>\<open>parse_error\<close>.
\<close>

theorem truncated_string_is_repaired:
  \<open>try_fix_json (ustr ''{"a": [1, 2, 3], "b": "incomplete'') = Some (ustr ''{"a": [1, 2, 3]}'') \<and>
   safe_json (ustr ''{"a": [1, 2, 3], "b": "incomplete'') =
     Inr (JObject [(ustr ''a'', JArray [JInt 1, JInt 2, JInt 3])])\<close>
  by (simp add: safe_ev json_ev fix_ev str_ev)

text \<open>
  Claim C8. The one-character input \<^verbatim>\<open>{\<close> is not valid JSON, the repair appends a
  single \<^verbatim>\<open>}\<close>, the candidate decodes, and the decoder returns the empty mapping
  instead of the diagnostic one.
\<close>

theorem lone_open_brace_is_repaired:
  \<open>json_loads (ustr ''{'') =
     Inl (JSONDecodeError (ustr ''Expecting property name enclosed in double quotes'') (ustr ''{'') 1) \<and>
   try_fix_json (ustr ''{'') = Some (ustr ''{}'') \<and>
   safe_json (ustr ''{'') = Inr (JObject [])\<close>
  by (simp add: safe_ev json_ev fix_ev str_ev)



lemma json_loads_doc: "json_loads s = Inl (JSONDecodeError m d p) \<Longrightarrow> d = s \<and> p \<le> length s"
  by (auto simp: json_loads_def decode_def split: if_splits sum.splits scan_exn.splits prod.splits)

section \<open>Properties of the fence stripper\<close>

lemma split_not_Nil: "split sep s \<noteq> []"
  by (induction s) (auto split: list.splits)

lemma split_append: "split sep (a @ sep # b) = split sep a @ split sep b"
  by (induction a) (auto split: list.splits simp: split_not_Nil)

lemma split_no_sep: "sep \<notin> set s \<Longrightarrow> split sep s = [s]"
  by (induction s) auto

lemma join_split: "join sep (split sep s) = s"
proof (induction s)
  case Nil
  then show ?case by simp
next
  case (Cons c s)
  show ?case
  proof (cases "split sep s")
    case Nil
    with split_not_Nil show ?thesis by blast
  next
    case (Cons l ls)
    with Cons.IH show ?thesis by (cases ls) auto
  qed
qed

lemma join_Cons: "ls \<noteq> [] \<Longrightarrow> join sep (l # ls) = l @ sep # join sep ls"
  by (cases ls) simp_all

lemma rstrip_Cons: "\<not> isspace c \<Longrightarrow> rstrip (c # x) = c # rstrip x"
  by (simp add: rstrip_def dropWhile_append)

lemma rstrip_append: "a \<noteq> [] \<Longrightarrow> \<not> isspace (last a) \<Longrightarrow> rstrip (a @ x) = a @ rstrip x"
proof -
  assume "a \<noteq> []" and "\<not> isspace (last a)"
  then have da: "dropWhile isspace (rev a) = rev a"
    by (cases a rule: rev_cases) simp_all
  show ?thesis
    by (simp add: rstrip_def dropWhile_append da)
qed

lemma fence_chars: "fence = [96, 96, 96]" "\<not> isspace 96" "NL \<noteq> 96"
  by (simp_all add: fence_def ustr_def cp_def isspace_def NL_def)

lemma strip_fence_prefix: "strip (fence @ x) = fence @ rstrip x"
  by (simp add: strip_def lstrip_def fence_chars rstrip_Cons)

lemma startswith_fence_append: "startswith (fence @ x) fence"
  by (simp add: startswith_def)

lemma startswith_fenceD: "startswith s fence \<Longrightarrow> s = fence @ drop 3 s"
  by (metis append_take_drop_id fence_chars(1) length_Cons list.size(3) numeral_3_eq_3 startswith_def)

lemma fence_loop_no_close:
  "\<forall>l \<in> set ls. strip l \<noteq> fence \<Longrightarrow> fence_loop True acc ls = acc @ ls"
  by (induction ls arbitrary: acc) (simp_all add: Let_def)

lemma fence_loop_close:
  "\<forall>l \<in> set ls. strip l \<noteq> fence \<Longrightarrow> strip c = fence \<Longrightarrow>
   fence_loop True acc (ls @ c # rest) = acc @ ls"
  by (induction ls arbitrary: acc) (simp_all add: Let_def)

lemma split_first_line:
  "split NL (fence @ x) = (fence @ hd (split NL x)) # tl (split NL x)"
  using split_not_Nil [of NL x]
  by (cases "split NL x") (simp_all add: fence_chars)

lemma strip_fence_opened:
  assumes "startswith (strip t) fence"
  shows "strip_fence t = join NL (fence_loop True [] (tl (split NL (strip t))))"
proof -
  from assms have s: "strip t = fence @ drop 3 (strip t)" by (rule startswith_fenceD)
  let ?x = "drop 3 (strip t)"
  have sp: "split NL (strip t) = (fence @ hd (split NL ?x)) # tl (split NL ?x)"
    using split_first_line [of ?x] s by simp
  have "startswith (strip (fence @ hd (split NL ?x))) fence"
    by (simp add: strip_fence_prefix startswith_fence_append)
  then have "fence_loop False [] (split NL (strip t)) = fence_loop True [] (tl (split NL (strip t)))"
    unfolding sp by (simp add: Let_def)
  with assms show ?thesis by (simp add: strip_fence_def Let_def)
qed

text \<open>
  Claim C9. When the trimmed input begins with a fence marker and no later line is a
  bare closing marker, the de-fenced text is made of all the lines after the first one,
  joined again: nothing but the opening marker line is dropped.
\<close>

theorem unclosed_fence_keeps_all_lines:
  assumes "startswith (strip t) fence"
    and "\<forall>l \<in> set (tl (split NL (strip t))). strip l \<noteq> fence"
  shows "strip_fence t = join NL (tl (split NL (strip t)))"
  using assms fence_loop_no_close [of "tl (split NL (strip t))" "[]"]
  by (simp add: strip_fence_opened)

theorem unclosed_fence_keeps_all_lines_witness:
  \<open>startswith (strip (ustr ''```json\<newline>{"a": 1,\<newline> "b": 2}'')) fence \<and>
   strip_fence (ustr ''```json\<newline>{"a": 1,\<newline> "b": 2}'') = ustr ''{"a": 1,\<newline> "b": 2}'' \<and>
   safe_json (ustr ''```json\<newline>{"a": 1,\<newline> "b": 2}'') =
     Inr (JObject [(ustr ''a'', JInt 1), (ustr ''b'', JInt 2)])\<close>
proof -
  have h1: \<open>startswith (strip (ustr ''```json\<newline>{"a": 1,\<newline> "b": 2}'')) fence\<close>
    by (simp add: str_ev)
  have h2: \<open>\<forall>l \<in> set (tl (split NL (strip (ustr ''```json\<newline>{"a": 1,\<newline> "b": 2}'')))).
      strip l \<noteq> fence\<close>
    by (simp add: str_ev)
  have h3: \<open>join NL (tl (split NL (strip (ustr ''```json\<newline>{"a": 1,\<newline> "b": 2}'')))) =
      ustr ''{"a": 1,\<newline> "b": 2}''\<close>
    by (simp add: str_ev)
  have h4: \<open>decode_or_repair (ustr ''{"a": 1,\<newline> "b": 2}'') =
      Inr (JObject [(ustr ''a'', JInt 1), (ustr ''b'', JInt 2)])\<close>
    by (simp add: decode_or_repair_def json_ev str_ev)
  from unclosed_fence_keeps_all_lines [OF h1 h2] h1 h3 h4 show ?thesis
    by (simp add: safe_json_def)
qed

lemma rstrip_NL_Cons: "rstrip (NL # c) = [] \<or> (\<exists>c'. rstrip (NL # c) = NL # c')"
  by (simp add: rstrip_def dropWhile_append) (metis rev_rev_ident)

lemma strip_fence_eq_fence: "strip fence = fence"
  by (simp add: fence_chars strip_def lstrip_def rstrip_def)

lemma split_fence_tail:
  assumes "t' = [] \<or> (\<exists>c'. t' = NL # c')"
  shows "\<exists>rest. split NL (fence @ t') = fence # rest"
proof -
  have f: "split NL fence = [fence]"
    by (rule split_no_sep) (simp add: fence_chars)
  from assms show ?thesis
  proof
    assume "t' = []"
    with f show ?thesis by simp
  next
    assume "\<exists>c'. t' = NL # c'"
    then obtain c' where "t' = NL # c'" ..
    then show ?thesis using split_append [of NL fence c'] f by simp
  qed
qed

lemma strip_fence_fenced:
  assumes tag: "NL \<notin> set tag"
    and lines: "\<forall>l \<in> set (split NL content). strip l \<noteq> fence"
  shows "strip_fence (fenced tag content commentary) = content"
proof -
  define trailer where "trailer = (case commentary of None \<Rightarrow> [] | Some c \<Rightarrow> NL # c)"
  define t' where "t' = rstrip trailer"
  have t': "t' = [] \<or> (\<exists>c'. t' = NL # c')"
    using rstrip_NL_Cons unfolding t'_def trailer_def
    by (cases commentary) (auto simp: rstrip_def)
  let ?a = "tag @ NL # content @ NL # fence"
  have x: "fenced tag content commentary = fence @ (?a @ trailer)"
    by (simp add: fenced_def trailer_def)
  have "rstrip (?a @ trailer) = ?a @ t'"
    unfolding t'_def by (rule rstrip_append) (simp_all add: fence_chars)
  then have s: "strip (fenced tag content commentary) = fence @ ?a @ t'"
    unfolding x by (simp add: strip_fence_prefix)
  have sw: "startswith (strip (fenced tag content commentary)) fence"
    unfolding s by (rule startswith_fence_append)
  from split_fence_tail [OF t'] obtain rest where r: "split NL (fence @ t') = fence # rest" ..
  have "fence @ ?a @ t' = (fence @ tag) @ NL # (content @ NL # (fence @ t'))" by simp
  then have "split NL (strip (fenced tag content commentary)) =
      split NL (fence @ tag) @ split NL (content @ NL # (fence @ t'))"
    unfolding s by (simp only: split_append)
  also have "split NL (fence @ tag) = [fence @ tag]"
    using tag by (intro split_no_sep) (simp add: fence_chars)
  also have "split NL (content @ NL # (fence @ t')) = split NL content @ fence # rest"
    by (simp only: split_append r)
  finally have "tl (split NL (strip (fenced tag content commentary))) =
      split NL content @ fence # rest" by simp
  then have "fence_loop True [] (tl (split NL (strip (fenced tag content commentary)))) =
      split NL content"
    using fence_loop_close [OF lines strip_fence_eq_fence, of "[]" rest] by simp
  with strip_fence_opened [OF sw] show ?thesis by (simp add: join_split)
qed

lemma strip_fence_unfenced:
  "strip content = content \<Longrightarrow> \<not> startswith content fence \<Longrightarrow> strip_fence content = content"
  by (simp add: strip_fence_def)

section \<open>Valid JSON text decodes to its value\<close>

lemma ws_iff: "c \<in> set WHITESPACE_STR \<longleftrightarrow> c = 32 \<or> c = 9 \<or> c = 10 \<or> c = 13"
  by (auto simp: WHITESPACE_STR_def cp_def)

lemma skip_ws_Nil_iff: "skip_ws a = [] \<longleftrightarrow> set a \<subseteq> set WHITESPACE_STR"
  by (auto simp: skip_ws_def)

lemma skip_ws_append:
  "set w \<subseteq> set WHITESPACE_STR \<Longrightarrow>
   skip_ws (a @ w) = (if skip_ws a = [] then [] else skip_ws a @ w)"
  by (auto simp: skip_ws_def dropWhile_append)

lemma ws_drop: "set w \<subseteq> set WHITESPACE_STR \<Longrightarrow> set (drop n w) \<subseteq> set WHITESPACE_STR"
  by (meson set_drop_subset subset_trans)

lemma py_scanstring_ws:
  "set w \<subseteq> set WHITESPACE_STR \<Longrightarrow> py_scanstring b ch w \<noteq> Inr res"
proof (induction w arbitrary: ch)
  case Nil
  then show ?case by simp
next
  case (Cons c w)
  then have "c = 32 \<or> c = 9 \<or> c = 10 \<or> c = 13" by (simp add: ws_iff)
  with Cons show ?case by (auto simp: cp_def)
qed

lemma ws_take2: "set z \<subseteq> set WHITESPACE_STR \<Longrightarrow> take 2 z \<noteq> [cp CHR 0x5C, cp CHR ''u'']"
  by (cases z) (auto simp: ws_iff cp_def)

lemma decode_uXXXX_short: "length s \<le> 4 \<Longrightarrow> decode_uXXXX s = None"
  by (simp add: decode_uXXXX_def)

lemma decode_uXXXX_length: "decode_uXXXX s = Some u \<Longrightarrow> 5 \<le> length s"
  by (cases "length s \<le> 4") (simp_all add: decode_uXXXX_short)

lemma decode_uXXXX_append: "5 \<le> length s \<Longrightarrow> decode_uXXXX (s @ w) = decode_uXXXX s"
  by (simp add: decode_uXXXX_def)

lemma hexval_ws: "c \<in> set WHITESPACE_STR \<Longrightarrow> hexval c = None"
  by (auto simp: ws_iff hexval_def cp_def)

lemma decode_uXXXX_ws:
  assumes w: "set w \<subseteq> set WHITESPACE_STR" and d: "decode_uXXXX (s @ w) = Some u"
  shows "4 \<le> length s"
proof (rule ccontr)
  assume "\<not> 4 \<le> length s"
  then have l: "length s < 4" by simp
  from d have l5: "5 \<le> length (s @ w)" by (rule decode_uXXXX_length)
  with l have "(take 4 (s @ w)) ! length s = w ! 0" "length s < length (take 4 (s @ w))"
    by (simp_all add: nth_append)
  moreover from l5 l have "w ! 0 \<in> set w" by (cases w) simp_all
  ultimately have "\<exists>i < length (take 4 (s @ w)). hexval (take 4 (s @ w) ! i) = None"
    using w hexval_ws by (metis subsetD)
  then have n: "None \<in> set (map hexval (take 4 (s @ w)))"
    by (metis (no_types, lifting) in_set_conv_nth length_map nth_map)
  from d obtain a b c e where
    m: "map hexval (take 4 (s @ w)) = [Some a, Some b, Some c, Some e]"
    by (auto simp: decode_uXXXX_def split: if_splits list.splits option.splits)
  from n have "None \<in> set [Some a, Some b, Some c, Some e]" unfolding m .
  then show False by simp
qed



lemma py_scanstring_trunc:
  assumes w: "set w \<subseteq> set WHITESPACE_STR"
  shows "py_scanstring b ch (s @ w) = Inr (k, r') \<Longrightarrow>
         \<exists>r. r' = r @ w \<and> py_scanstring b' ch s = Inr (k, r) \<and> (\<exists>x. s = x @ cp CHR 0x22 # r)"
proof (induction s arbitrary: ch rule: length_induct)
  case (1 s)
  have IH: "\<And>s0 ch. length s0 < length s \<Longrightarrow> py_scanstring b ch (s0 @ w) = Inr (k, r') \<Longrightarrow>
      \<exists>r. r' = r @ w \<and> py_scanstring b' ch s0 = Inr (k, r) \<and> (\<exists>x. s0 = x @ cp CHR 0x22 # r)"
    using "1.IH" by blast
  note p = "1.prems"
  show ?case
  proof (cases s)
    case Nil
    with p py_scanstring_ws [OF w] show ?thesis by simp
  next
    case (Cons c t)
    show ?thesis
    proof (cases "c = cp CHR 0x22")
      case True
      with p Cons show ?thesis by auto
    next
      case nq: False
      show ?thesis
      proof (cases "c = cp CHR 0x5C")
        case False
        with p Cons nq have r: "py_scanstring b (ch @ [c]) (t @ w) = Inr (k, r')" and c: "\<not> c \<le> 0x1f"
          by (auto split: if_splits)
        from IH [OF _ r] Cons obtain r x where
          "r' = r @ w" "py_scanstring b' (ch @ [c]) t = Inr (k, r)" "t = x @ cp CHR 0x22 # r"
          by auto
        with Cons nq False c show ?thesis
          by (auto intro: exI [of _ "c # x"])
      next
        case bs: True
        show ?thesis
        proof (cases t)
          case Nil
          with p Cons nq bs w show ?thesis
            by (cases w) (auto simp: ws_iff BACKSLASH_def cp_def)
        next
          case t: (Cons esc s1)
          show ?thesis
          proof (cases "esc = cp CHR ''u''")
            case False
            with p Cons nq bs t obtain char where
              e: "BACKSLASH esc = Some char" and r: "py_scanstring b (ch @ [char]) (s1 @ w) = Inr (k, r')"
              by (auto split: option.splits)
            from IH [OF _ r] Cons t obtain r x where
              "r' = r @ w" "py_scanstring b' (ch @ [char]) s1 = Inr (k, r)" "s1 = x @ cp CHR 0x22 # r"
              by auto
            with Cons nq bs t False e show ?thesis
              by (auto intro: exI [of _ "c # esc # x"])
          next
            case u: True
            from p Cons nq bs t u obtain uni where d: "decode_uXXXX (s1 @ w) = Some uni"
              by (auto split: option.splits)
            define hi where "hi \<longleftrightarrow> 0xd800 \<le> uni \<and> uni \<le> 0xdbff"
            show ?thesis
            proof (cases "length s1 \<le> 4")
              case True
              define z where "z = drop 4 (s1 @ w)"
              have z: "set z \<subseteq> set WHITESPACE_STR"
                using True w by (auto simp: z_def dest: in_set_dropD)
              from p Cons nq bs t u d ws_take2 [OF z]
              have "py_scanstring b (ch @ [uni]) z = Inr (k, r')"
                by (simp add: Let_def z_def [symmetric] del: drop_append)
              with py_scanstring_ws [OF z] show ?thesis by blast
            next
              case False
              then have l5: "5 \<le> length s1" by simp
              with d have d0: "decode_uXXXX s1 = Some uni" by (simp add: decode_uXXXX_append)
              define s2 where "s2 = drop 4 s1"
              have s2: "drop 4 (s1 @ w) = s2 @ w" "s2 \<noteq> []" "length s2 < length s"
                using l5 Cons t by (simp_all add: s2_def)
              define K where "K = (\<lambda>bb z.
                  if hi \<and> take 2 z = [cp CHR 0x5C, cp CHR ''u''] then
                    (case decode_uXXXX (drop 2 z) of
                       None \<Rightarrow>
                         Inl (Raise (ustr ''Invalid '' @ [cp CHR 0x5C] @ ustr ''uXXXX escape'')
                                (length z - 1))
                     | Some uni2 \<Rightarrow>
                         if 0xdc00 \<le> uni2 \<and> uni2 \<le> 0xdfff then
                           py_scanstring bb
                             (ch @ [0x10000 + ((uni - 0xd800) * 1024 + (uni2 - 0xdc00))])
                             (drop 6 z)
                         else py_scanstring bb (ch @ [uni]) z)
                  else py_scanstring bb (ch @ [uni]) z)"
              have e1: "py_scanstring b ch (s @ w) = K b (s2 @ w)"
                using Cons nq bs t u d
                by (simp add: Let_def hi_def K_def s2(1) del: drop_append take_append)
              have e2: "py_scanstring b' ch s = K b' s2"
                using Cons nq bs t u d0
                by (simp add: Let_def hi_def K_def s2_def [symmetric] del: drop_append take_append)
              have pre: "s = (c # esc # take 4 s1) @ s2"
                using Cons t by (simp add: s2_def)
              have plain: ?thesis
                if r: "py_scanstring b (ch @ [uni]) (s2 @ w) = Inr (k, r')"
                  and k2: "\<And>r. py_scanstring b' (ch @ [uni]) s2 = Inr (k, r) \<Longrightarrow> K b' s2 = Inr (k, r)"
              proof -
                from IH [OF s2(3) r] obtain r x where
                  rr: "r' = r @ w" "py_scanstring b' (ch @ [uni]) s2 = Inr (k, r)"
                    "s2 = x @ cp CHR 0x22 # r"
                  by auto
                from pre rr(3) have "s = (c # esc # take 4 s1 @ x) @ cp CHR 0x22 # r" by simp
                with rr(1) k2 [OF rr(2)] e2 show ?thesis by metis
              qed
              show ?thesis
              proof (cases "hi \<and> take 2 (s2 @ w) = [cp CHR 0x5C, cp CHR ''u'']")
                case False
                with p e1 have r: "py_scanstring b (ch @ [uni]) (s2 @ w) = Inr (k, r')"
                  by (simp add: K_def del: take_append)
                have "\<not> (hi \<and> take 2 s2 = [cp CHR 0x5C, cp CHR ''u''])"
                proof
                  assume a: "hi \<and> take 2 s2 = [cp CHR 0x5C, cp CHR ''u'']"
                  then have "2 \<le> length s2" by (cases s2; cases "tl s2") auto
                  with a False show False by simp
                qed
                then have "K b' s2 = py_scanstring b' (ch @ [uni]) s2"
                  unfolding K_def by (rule if_not_P)
                with r show ?thesis by (intro plain) simp_all
              next
                case True
                then have hi: hi and tk: "take 2 (s2 @ w) = [cp CHR 0x5C, cp CHR ''u'']" by simp_all
                obtain s3 where s3: "s2 = cp CHR 0x5C # cp CHR ''u'' # s3"
                proof -
                  from s2(2) obtain a s2t where a: "s2 = a # s2t" by (cases s2) auto
                  with tk have "a = cp CHR 0x5C" by simp
                  moreover have "s2t \<noteq> []"
                  proof
                    assume "s2t = []"
                    with a tk have "take 1 w = [cp CHR ''u'']" by simp
                    with w show False by (cases w) (auto simp: ws_iff cp_def)
                  qed
                  then obtain a2 s3 where "s2t = a2 # s3" by (cases s2t) auto
                  moreover from this a tk have "a2 = cp CHR ''u''" by simp
                  ultimately show ?thesis using a that by blast
                qed
                have dw: "drop 2 (s2 @ w) = s3 @ w" "drop 6 (s2 @ w) = drop 4 (s3 @ w)"
                  by (simp_all add: s3 del: drop_append)
                have d0s: "drop 2 s2 = s3" "drop 6 s2 = drop 4 s3"
                  and tk0: "take 2 s2 = [cp CHR 0x5C, cp CHR ''u'']"
                  by (simp_all add: s3)
                have K1: "K b (s2 @ w) =
                    (case decode_uXXXX (s3 @ w) of
                       None \<Rightarrow>
                         Inl (Raise (ustr ''Invalid '' @ [cp CHR 0x5C] @ ustr ''uXXXX escape'')
                                (length (s2 @ w) - 1))
                     | Some uni2 \<Rightarrow>
                         if 0xdc00 \<le> uni2 \<and> uni2 \<le> 0xdfff then
                           py_scanstring b
                             (ch @ [0x10000 + ((uni - 0xd800) * 1024 + (uni2 - 0xdc00))])
                             (drop 4 (s3 @ w))
                         else py_scanstring b (ch @ [uni]) (s2 @ w))"
                  unfolding K_def using hi tk dw by (simp del: drop_append take_append cong: option.case_cong if_cong)
                have K2: "K b' s2 =
                    (case decode_uXXXX s3 of
                       None \<Rightarrow>
                         Inl (Raise (ustr ''Invalid '' @ [cp CHR 0x5C] @ ustr ''uXXXX escape'')
                                (length s2 - 1))
                     | Some uni2 \<Rightarrow>
                         if 0xdc00 \<le> uni2 \<and> uni2 \<le> 0xdfff then
                           py_scanstring b'
                             (ch @ [0x10000 + ((uni - 0xd800) * 1024 + (uni2 - 0xdc00))])
                             (drop 4 s3)
                         else py_scanstring b' (ch @ [uni]) s2)"
                  unfolding K_def using hi tk0 d0s by (simp del: drop_append take_append cong: option.case_cong if_cong)
                from p e1 K1 obtain uni2 where d2: "decode_uXXXX (s3 @ w) = Some uni2"
                  by (auto split: option.splits)
                define lo where "lo \<longleftrightarrow> 0xdc00 \<le> uni2 \<and> uni2 \<le> 0xdfff"
                from p e1 K1 d2
                have rec: "(if lo then py_scanstring b
                               (ch @ [0x10000 + ((uni - 0xd800) * 1024 + (uni2 - 0xdc00))])
                               (drop 4 (s3 @ w))
                           else py_scanstring b (ch @ [uni]) (s2 @ w)) = Inr (k, r')"
                  by (simp add: lo_def del: drop_append)
                show ?thesis
                proof (cases "length s3 \<le> 4")
                  case True
                  then have n3: "decode_uXXXX s3 = None" by (rule decode_uXXXX_short)
                  show ?thesis
                  proof (cases lo)
                    case True
                    define z where "z = drop 4 (s3 @ w)"
                    have z: "set z \<subseteq> set WHITESPACE_STR"
                      using \<open>length s3 \<le> 4\<close> w by (auto simp: z_def dest: in_set_dropD)
                    from rec True have "py_scanstring b
                               (ch @ [0x10000 + ((uni - 0xd800) * 1024 + (uni2 - 0xdc00))]) z
                               = Inr (k, r')"
                      by (simp add: z_def del: drop_append)
                    with py_scanstring_ws [OF z] show ?thesis by blast
                  next
                    case False
                    with rec have r: "py_scanstring b (ch @ [uni]) (s2 @ w) = Inr (k, r')" by simp
                    from IH [OF s2(3) r] obtain r where "py_scanstring b' (ch @ [uni]) s2 = Inr (k, r)"
                      by auto
                    moreover have "py_scanstring b' (ch @ [uni]) s2 =
                        Inl (Raise (ustr ''Invalid '' @ [cp CHR 0x5C] @ ustr ''uXXXX escape'')
                               (Suc (length s3)))"
                      unfolding s3 using n3 by (simp add: cp_def)
                    ultimately show ?thesis by simp
                  qed
                next
                  case False
                  then have l3: "5 \<le> length s3" by simp
                  with d2 have d3: "decode_uXXXX s3 = Some uni2" by (simp add: decode_uXXXX_append)
                  have step: "K b' s2 =
                      (if lo then py_scanstring b'
                               (ch @ [0x10000 + ((uni - 0xd800) * 1024 + (uni2 - 0xdc00))]) (drop 4 s3)
                       else py_scanstring b' (ch @ [uni]) s2)"
                    using K2 d3 by (simp add: lo_def)
                  show ?thesis
                  proof (cases lo)
                    case True
                    with rec l3 have r:
                      "py_scanstring b (ch @ [0x10000 + ((uni - 0xd800) * 1024 + (uni2 - 0xdc00))])
                         (drop 4 s3 @ w) = Inr (k, r')"
                      by simp
                    have "length (drop 4 s3) < length s" using s2(3) s3 by simp
                    from IH [OF this r] obtain r x where
                      rr: "r' = r @ w"
                        "py_scanstring b' (ch @ [0x10000 + ((uni - 0xd800) * 1024 + (uni2 - 0xdc00))])
                           (drop 4 s3) = Inr (k, r)"
                        "drop 4 s3 = x @ cp CHR 0x22 # r"
                      by auto
                    have "s3 = take 4 s3 @ x @ cp CHR 0x22 # r"
                      using rr(3) by (metis append_take_drop_id)
                    then have "s = (c # esc # take 4 s1 @ cp CHR 0x5C # cp CHR ''u'' # take 4 s3 @ x)
                        @ cp CHR 0x22 # r"
                      using pre s3 by simp
                    moreover have "py_scanstring b' ch s = Inr (k, r)"
                      using e2 step True rr(2) by simp
                    ultimately show ?thesis using rr(1) by blast
                  next
                    case False
                    with rec have r: "py_scanstring b (ch @ [uni]) (s2 @ w) = Inr (k, r')" by simp
                    from False step r show ?thesis by (intro plain) simp_all
                  qed
                qed
              qed
            qed
          qed
        qed
      qed
    qed
  qed
qed

lemma ws_isspace: "c \<in> set WHITESPACE_STR \<Longrightarrow> isspace c"
  by (auto simp: ws_iff isspace_def)

lemma ws_not_digit: "c \<in> set WHITESPACE_STR \<Longrightarrow> \<not> isdigit c"
  by (auto simp: ws_iff isdigit_def cp_def)

lemma digit_not_space: "isdigit c \<Longrightarrow> \<not> isspace c"
  by (auto simp: isspace_def isdigit_def cp_def)

lemma takeWhile_isdigit_ws:
  "set w \<subseteq> set WHITESPACE_STR \<Longrightarrow> takeWhile isdigit (a @ w) = takeWhile isdigit a"
proof (induction a)
  case Nil
  then show ?case by (cases w) (auto simp: ws_not_digit)
next
  case (Cons c a)
  then show ?case by simp
qed

lemma take_lit_ws:
  assumes w: "set w \<subseteq> set WHITESPACE_STR" and lit: "set lit \<inter> set WHITESPACE_STR = {}"
    and k: "length lit = k"
  shows "take k (s @ w) = lit \<longleftrightarrow> take k s = lit"
proof (cases "k \<le> length s")
  case True
  then show ?thesis by simp
next
  case False
  then have l: "length s < k" by simp
  have "take k s \<noteq> lit"
  proof
    assume "take k s = lit"
    then have "length (take k s) = k" using k by simp
    with l show False by simp
  qed
  moreover have "take k (s @ w) \<noteq> lit"
  proof
    assume a: "take k (s @ w) = lit"
    then have "length (take k (s @ w)) = k" using k by simp
    with l have "take (k - length s) w \<noteq> []" by auto
    then obtain c where c: "c \<in> set (take (k - length s) w)"
      by (cases "take (k - length s) w") auto
    then have "c \<in> set w" by (rule in_set_takeD)
    moreover from c a have "c \<in> set lit" by (metis Un_iff set_append take_append)
    ultimately show False using w lit by auto
  qed
  ultimately show ?thesis by simp
qed

lemma take1_ws:
  "set w \<subseteq> set WHITESPACE_STR \<Longrightarrow> c \<notin> set WHITESPACE_STR \<Longrightarrow>
   take 1 (s @ w) = [c] \<longleftrightarrow> take 1 s = [c]"
  using take_lit_ws [of w "[c]" 1 s] by simp

lemma consumedI:
  "s = x @ r \<Longrightarrow> x \<noteq> [] \<Longrightarrow> \<forall>c\<in>set x. \<not> isspace c \<Longrightarrow> \<exists>y c. s = y @ c # r \<and> \<not> isspace c"
proof -
  assume s: "s = x @ r" and x: "x \<noteq> []" and a: "\<forall>c\<in>set x. \<not> isspace c"
  from x have "x = butlast x @ [last x]" by simp
  with s have "s = butlast x @ last x # r" by (metis append.assoc append_Cons append_Nil)
  moreover from x a have "\<not> isspace (last x)" by simp
  ultimately show ?thesis by blast
qed

lemma match_number_trunc:
  assumes w: "set w \<subseteq> set WHITESPACE_STR"
  shows "match_number (s @ w) = map_option (\<lambda>(i, f, e, r). (i, f, e, r @ w)) (match_number s)"
    and "match_number s = Some (i, f, e, r) \<Longrightarrow> \<exists>y c. s = y @ c # r \<and> \<not> isspace c"
proof -
  define frac :: "pystr \<Rightarrow> pystr" where
    "frac = (\<lambda>a. case a of [] \<Rightarrow> []
              | p # s4 \<Rightarrow> if p = cp CHR ''.'' \<and> takeWhile isdigit s4 \<noteq> []
                          then p # takeWhile isdigit s4 else [])"
  define expo :: "pystr \<Rightarrow> pystr" where
    "expo = (\<lambda>a. case a of [] \<Rightarrow> []
              | e # s6 \<Rightarrow>
                  if e = cp CHR ''e'' \<or> e = cp CHR ''E'' then
                    (let sg = (if take 1 s6 = ustr ''-'' \<or> take 1 s6 = ustr ''+''
                               then take 1 s6 else []);
                         ds = takeWhile isdigit (drop (length sg) s6)
                     in if ds \<noteq> [] then e # sg @ ds else [])
                  else [])"
  define sgn :: "pystr \<Rightarrow> pystr" where
    "sgn = (\<lambda>x. if take 1 x = ustr ''-'' then ustr ''-'' else [])"
  define dgts :: "nat \<Rightarrow> pystr \<Rightarrow> pystr" where
    "dgts = (\<lambda>d s2. if d = cp CHR ''0'' then [] else takeWhile isdigit s2)"
  have mn: "match_number x =
      (case drop (length (sgn x)) x of
         [] \<Rightarrow> None
       | d # s2 \<Rightarrow>
           if \<not> isdigit d then None
           else Some (sgn x @ d # dgts d s2, frac (drop (length (dgts d s2)) s2),
                  expo (drop (length (frac (drop (length (dgts d s2)) s2))) (drop (length (dgts d s2)) s2)),
                  drop (length (expo (drop (length (frac (drop (length (dgts d s2)) s2)))
                                      (drop (length (dgts d s2)) s2))))
                    (drop (length (frac (drop (length (dgts d s2)) s2))) (drop (length (dgts d s2)) s2))))"
    for x
    unfolding match_number_def frac_def expo_def sgn_def dgts_def Let_def by (rule refl)
  have tw: "takeWhile isdigit (a @ w) = takeWhile isdigit a" for a
    by (rule takeWhile_isdigit_ws [OF w])
  have twp: "takeWhile isdigit a @ drop (length (takeWhile isdigit a)) a = a" for a
    by (metis takeWhile_dropWhile_id dropWhile_eq_drop)
  have twd: "\<forall>c\<in>set (takeWhile isdigit a). \<not> isspace c" for a
    by (auto dest!: set_takeWhileD digit_not_space)
  have minus: "cp CHR ''-'' \<notin> set WHITESPACE_STR" and plus: "cp CHR ''+'' \<notin> set WHITESPACE_STR"
    by (simp_all add: ws_iff cp_def)
  have t1m: "take 1 (a @ w) = ustr ''-'' \<longleftrightarrow> take 1 a = ustr ''-''" for a
    using take1_ws [OF w minus, of a] by (simp add: ustr_def)
  have t1p: "take 1 (a @ w) = ustr ''+'' \<longleftrightarrow> take 1 a = ustr ''+''" for a
    using take1_ws [OF w plus, of a] by (simp add: ustr_def)
  \<comment> \<open>the sign\<close>
  have sgnw: "sgn (a @ w) = sgn a" for a unfolding sgn_def t1m by (rule refl)
  have sgnp: "sgn a @ drop (length (sgn a)) a = a" for a
    by (cases a) (auto simp: sgn_def ustr_def)
  have sgns: "\<forall>c\<in>set (sgn a). \<not> isspace c" for a
    by (simp add: sgn_def ustr_def cp_def isspace_def)
  \<comment> \<open>the digits\<close>
  have dgtsw: "dgts d (a @ w) = dgts d a" for d a by (simp add: dgts_def tw)
  have dgtsp: "dgts d a @ drop (length (dgts d a)) a = a" for d a
    by (simp add: dgts_def twp)
  have dgtss: "\<forall>c\<in>set (dgts d a). \<not> isspace c" for d a
    using twd [of a] by (simp add: dgts_def)
  \<comment> \<open>the fraction\<close>
  have fracw: "frac (a @ w) = frac a" for a
  proof (cases a)
    case Nil
    show ?thesis
    proof (cases w)
      case Nil
      with \<open>a = []\<close> show ?thesis by simp
    next
      case (Cons c w')
      with w have "c \<noteq> cp CHR ''.''" by (auto simp: ws_iff cp_def)
      with Cons \<open>a = []\<close> show ?thesis by (simp add: frac_def)
    qed
  next
    case (Cons p s4)
    then show ?thesis by (simp add: frac_def tw)
  qed
  have fracp: "frac a @ drop (length (frac a)) a = a" for a
    by (cases a) (simp_all add: frac_def twp)
  have fracs: "\<forall>c\<in>set (frac a). \<not> isspace c" for a
  proof (cases a)
    case Nil
    then show ?thesis by (simp add: frac_def)
  next
    case (Cons p s4)
    have "\<not> isspace (cp CHR ''.'')" by (simp add: isspace_def cp_def)
    with Cons twd [of s4] show ?thesis by (auto simp: frac_def)
  qed
  \<comment> \<open>the exponent\<close>
  have expow: "expo (a @ w) = expo a" for a
  proof (cases a)
    case Nil
    show ?thesis
    proof (cases w)
      case Nil
      with \<open>a = []\<close> show ?thesis by simp
    next
      case (Cons c w')
      with w have "c \<noteq> cp CHR ''e''" "c \<noteq> cp CHR ''E''" by (auto simp: ws_iff cp_def)
      with Cons \<open>a = []\<close> show ?thesis by (simp add: expo_def)
    qed
  next
    case (Cons e s6)
    define sg where "sg = (if take 1 s6 = ustr ''-'' \<or> take 1 s6 = ustr ''+'' then take 1 s6 else [])"
    have 1: "(if take 1 (s6 @ w) = ustr ''-'' \<or> take 1 (s6 @ w) = ustr ''+''
              then take 1 (s6 @ w) else []) = sg"
      unfolding t1m t1p sg_def by (cases s6) (simp_all add: ustr_def)
    have "sg @ drop (length sg) s6 = s6" by (cases s6) (auto simp: sg_def)
    then have "drop (length sg) (s6 @ w) = drop (length sg) s6 @ w"
      by (metis append.assoc append_eq_conv_conj)
    then have 2: "takeWhile isdigit (drop (length sg) (s6 @ w)) = takeWhile isdigit (drop (length sg) s6)"
      by (simp add: tw)
    show ?thesis
      unfolding Cons append_Cons expo_def list.case Let_def 1 2 sg_def [symmetric] by (rule refl)
  qed
  have expop: "expo a @ drop (length (expo a)) a = a" for a
  proof (cases a)
    case Nil
    then show ?thesis by (simp add: expo_def)
  next
    case (Cons e s6)
    define sg where "sg = (if take 1 s6 = ustr ''-'' \<or> take 1 s6 = ustr ''+'' then take 1 s6 else [])"
    have p: "sg @ drop (length sg) s6 = s6" by (cases s6) (auto simp: sg_def)
    define ds where "ds = takeWhile isdigit (drop (length sg) s6)"
    have "ds @ drop (length ds) (drop (length sg) s6) = drop (length sg) s6"
      unfolding ds_def by (rule twp)
    with p have "(sg @ ds) @ drop (length (sg @ ds)) s6 = s6"
      by (metis append.assoc append_eq_conv_conj)
    moreover have "expo a = (if e = cp CHR ''e'' \<or> e = cp CHR ''E''
        then (if ds \<noteq> [] then e # sg @ ds else []) else [])"
      unfolding Cons expo_def list.case Let_def sg_def [symmetric] ds_def [symmetric] by (rule refl)
    ultimately show ?thesis using Cons by simp
  qed
  have expos: "\<forall>c\<in>set (expo a). \<not> isspace c" for a
  proof (cases a)
    case Nil
    then show ?thesis by (simp add: expo_def)
  next
    case (Cons e s6)
    define sg where "sg = (if take 1 s6 = ustr ''-'' \<or> take 1 s6 = ustr ''+'' then take 1 s6 else [])"
    define ds where "ds = takeWhile isdigit (drop (length sg) s6)"
    have e: "expo a = (if e = cp CHR ''e'' \<or> e = cp CHR ''E''
        then (if ds \<noteq> [] then e # sg @ ds else []) else [])"
      unfolding Cons expo_def list.case Let_def sg_def [symmetric] ds_def [symmetric] by (rule refl)
    have 1: "\<forall>c\<in>set sg. \<not> isspace c"
      by (auto simp: sg_def ustr_def cp_def isspace_def)
    have 2: "\<forall>c\<in>set ds. \<not> isspace c" unfolding ds_def by (rule twd)
    have 3: "\<not> isspace (cp CHR ''e'')" "\<not> isspace (cp CHR ''E'')"
      by (simp_all add: isspace_def cp_def)
    from e 1 2 3 show ?thesis by auto
  qed
  have da: "drop (length x) (a @ w) = drop (length x) a @ w" if "x @ drop (length x) a = a" for x a
    using that by (metis append.assoc append_eq_conv_conj)
  define s1 where "s1 = drop (length (sgn s)) s"
  have s1w: "drop (length (sgn (s @ w))) (s @ w) = s1 @ w"
    unfolding sgnw s1_def by (rule da [OF sgnp])
  have sp: "s = sgn s @ s1" unfolding s1_def by (rule sgnp [symmetric])
  show "match_number (s @ w) = map_option (\<lambda>(i, f, e, r). (i, f, e, r @ w)) (match_number s)"
  proof (cases s1)
    case Nil
    then have "match_number s = None" unfolding mn [of s] s1_def [symmetric] by simp
    moreover have "match_number (s @ w) = None"
      unfolding mn [of "s @ w"] s1w Nil using w by (cases w) (auto simp: ws_not_digit)
    ultimately show ?thesis by simp
  next
    case (Cons d s2)
    have 1: "drop (length (dgts d s2)) (s2 @ w) = drop (length (dgts d s2)) s2 @ w"
      by (rule da [OF dgtsp])
    have 2: "drop (length (frac a)) (a @ w) = drop (length (frac a)) a @ w" for a
      by (rule da [OF fracp])
    have 3: "drop (length (expo a)) (a @ w) = drop (length (expo a)) a @ w" for a
      by (rule da [OF expop])
    show ?thesis
      unfolding mn [of s] mn [of "s @ w"] s1w s1_def [symmetric] Cons
      by (simp add: sgnw dgtsw 1 fracw 2 expow 3 del: drop_append)
  qed
  show "\<exists>y c. s = y @ c # r \<and> \<not> isspace c" if m: "match_number s = Some (i, f, e, r)"
  proof (cases s1)
    case Nil
    then have "match_number s = None" unfolding mn [of s] s1_def [symmetric] by simp
    with m show ?thesis by simp
  next
    case (Cons d s2)
    define s3 where "s3 = drop (length (dgts d s2)) s2"
    define s5 where "s5 = drop (length (frac s3)) s3"
    from m have dd: "isdigit d" and r: "r = drop (length (expo s5)) s5"
      unfolding mn [of s] s1_def [symmetric] Cons s3_def s5_def
      by (auto split: if_splits)
    have "s2 = dgts d s2 @ s3" unfolding s3_def by (rule dgtsp [symmetric])
    moreover have "s3 = frac s3 @ s5" unfolding s5_def by (rule fracp [symmetric])
    moreover have "s5 = expo s5 @ r" unfolding r by (rule expop [symmetric])
    ultimately have "s = (sgn s @ d # dgts d s2 @ frac s3 @ expo s5) @ r"
      using sp Cons by simp
    moreover have "\<forall>c\<in>set (sgn s @ d # dgts d s2 @ frac s3 @ expo s5). \<not> isspace c"
      using sgns [of s] dgtss [of d s2] fracs [of s3] expos [of s5] digit_not_space [OF dd] by auto
    ultimately show ?thesis by (intro consumedI [where x = "sgn s @ d # dgts d s2 @ frac s3 @ expo s5"]) simp_all
  qed
qed

lemma lit_trunc:
  assumes w: "set w \<subseteq> set WHITESPACE_STR"
    and lit: "\<forall>c\<in>set lit. \<not> isspace c" "lit \<noteq> []" "length lit = k"
  shows "take k (s @ w) = lit \<longleftrightarrow> take k s = lit"
    and "take k s = lit \<Longrightarrow> drop k (s @ w) = drop k s @ w"
    and "take k s = lit \<Longrightarrow> \<exists>y c. s = y @ c # drop k s \<and> \<not> isspace c"
proof -
  from lit(1) have "set lit \<inter> set WHITESPACE_STR = {}" by (auto dest: ws_isspace)
  then show "take k (s @ w) = lit \<longleftrightarrow> take k s = lit"
    using lit(3) by (rule take_lit_ws [OF w])
  assume t: "take k s = lit"
  then have "length (take k s) = k" using lit(3) by simp
  then have "k \<le> length s" by simp
  then show "drop k (s @ w) = drop k s @ w" by simp
  have "s = lit @ drop k s" using t by (metis append_take_drop_id)
  then show "\<exists>y c. s = y @ c # drop k s \<and> \<not> isspace c"
    using lit by (intro consumedI [where x = lit]) simp_all
qed

lemma scan_constant_trunc:
  assumes w: "set w \<subseteq> set WHITESPACE_STR"
    and a: "scan_constant (s @ w) = Inr (v, r')"
  shows "\<exists>r. r' = r @ w \<and> scan_constant s = Inr (v, r) \<and> (\<exists>y c. s = y @ c # r \<and> \<not> isspace c)"
proof -
  have ns: "\<forall>c\<in>set (ustr ''n''). \<not> isspace c" "\<forall>c\<in>set (ustr ''t''). \<not> isspace c"
    "\<forall>c\<in>set (ustr ''f''). \<not> isspace c" "\<forall>c\<in>set (ustr ''N''). \<not> isspace c"
    "\<forall>c\<in>set (ustr ''I''). \<not> isspace c" "\<forall>c\<in>set (ustr ''-''). \<not> isspace c"
    "\<forall>c\<in>set (ustr ''null''). \<not> isspace c" "\<forall>c\<in>set (ustr ''true''). \<not> isspace c"
    "\<forall>c\<in>set (ustr ''false''). \<not> isspace c" "\<forall>c\<in>set (ustr ''NaN''). \<not> isspace c"
    "\<forall>c\<in>set (ustr ''Infinity''). \<not> isspace c" "\<forall>c\<in>set (ustr ''-Infinity''). \<not> isspace c"
    by (simp_all add: ustr_def cp_def isspace_def)
  have L1: "take k (s @ w) = ustr l \<longleftrightarrow> take k s = ustr l"
    if "\<forall>c\<in>set (ustr l). \<not> isspace c" "l \<noteq> []" "length l = k" for k l
    using lit_trunc(1) [OF w that(1), of k s] that(2,3) by (simp add: ustr_def)
  have lits:
    "take 1 (s @ w) = ustr ''n'' \<longleftrightarrow> take 1 s = ustr ''n''"
    "take 1 (s @ w) = ustr ''t'' \<longleftrightarrow> take 1 s = ustr ''t''"
    "take 1 (s @ w) = ustr ''f'' \<longleftrightarrow> take 1 s = ustr ''f''"
    "take 1 (s @ w) = ustr ''N'' \<longleftrightarrow> take 1 s = ustr ''N''"
    "take 1 (s @ w) = ustr ''I'' \<longleftrightarrow> take 1 s = ustr ''I''"
    "take 1 (s @ w) = ustr ''-'' \<longleftrightarrow> take 1 s = ustr ''-''"
    "take 4 (s @ w) = ustr ''null'' \<longleftrightarrow> take 4 s = ustr ''null''"
    "take 4 (s @ w) = ustr ''true'' \<longleftrightarrow> take 4 s = ustr ''true''"
    "take 5 (s @ w) = ustr ''false'' \<longleftrightarrow> take 5 s = ustr ''false''"
    "take 3 (s @ w) = ustr ''NaN'' \<longleftrightarrow> take 3 s = ustr ''NaN''"
    "take 8 (s @ w) = ustr ''Infinity'' \<longleftrightarrow> take 8 s = ustr ''Infinity''"
    "take 9 (s @ w) = ustr ''-Infinity'' \<longleftrightarrow> take 9 s = ustr ''-Infinity''"
    by (rule L1, simp add: ns, simp, simp)+
  have L: ?thesis
    if "take k s = lit" "\<forall>c\<in>set lit. \<not> isspace c" "lit \<noteq> []" "length lit = k"
      "r' = drop k (s @ w)" "scan_constant s = Inr (v, drop k s)" for k lit
    using lit_trunc(2,3) [OF w that(2,3,4) that(1)] that(5,6) by simp
  define A1 where "A1 \<longleftrightarrow> take 1 s = ustr ''n'' \<and> take 4 s = ustr ''null''"
  define A2 where "A2 \<longleftrightarrow> take 1 s = ustr ''t'' \<and> take 4 s = ustr ''true''"
  define A3 where "A3 \<longleftrightarrow> take 1 s = ustr ''f'' \<and> take 5 s = ustr ''false''"
  define A4 where "A4 \<longleftrightarrow> take 1 s = ustr ''N'' \<and> take 3 s = ustr ''NaN''"
  define A5 where "A5 \<longleftrightarrow> take 1 s = ustr ''I'' \<and> take 8 s = ustr ''Infinity''"
  define A6 where "A6 \<longleftrightarrow> take 1 s = ustr ''-'' \<and> take 9 s = ustr ''-Infinity''"
  note folds = A1_def [symmetric] A2_def [symmetric] A3_def [symmetric] A4_def [symmetric]
    A5_def [symmetric] A6_def [symmetric]
  note a' = a [unfolded scan_constant_def Let_def lits match_number_trunc(1) [OF w] folds]
  have sc: "scan_constant s =
     (if A1 then Inr (JNull, drop 4 s)
      else if A2 then Inr (JBool True, drop 4 s)
      else if A3 then Inr (JBool False, drop 5 s)
      else
        (case match_number s of
           Some (integer, frac, exp, rest) \<Rightarrow>
             if frac \<noteq> [] \<or> exp \<noteq> [] then Inr (JFloat (integer @ frac @ exp), rest)
             else
               (case parse_int integer of
                  Inl e \<Rightarrow> Inl e
                | Inr n \<Rightarrow> Inr (JInt n, rest))
         | None \<Rightarrow>
             if A4 then Inr (JNaN, drop 3 s)
             else if A5 then Inr (JInfinity, drop 8 s)
             else if A6 then Inr (JNegInfinity, drop 9 s)
             else Inl (StopIteration (length s))))"
    unfolding scan_constant_def Let_def folds by (rule refl)
  show ?thesis
  proof (cases A1)
    case True
    with a' have "v = JNull" "r' = drop 4 (s @ w)" by (simp_all del: drop_append)
    moreover from True this have "scan_constant s = Inr (v, drop 4 s)" by (simp add: sc)
    ultimately show ?thesis using True ns
      by (intro L [of 4 "ustr ''null''"]) (simp_all add: A1_def ustr_def cp_def isspace_def del: drop_append)
  next
    case c1: False
    show ?thesis
    proof (cases A2)
      case True
      with a' c1 have "v = JBool True" "r' = drop 4 (s @ w)" by (simp_all del: drop_append)
      moreover from True c1 this have "scan_constant s = Inr (v, drop 4 s)" by (simp add: sc)
      ultimately show ?thesis using True ns
        by (intro L [of 4 "ustr ''true''"]) (simp_all add: A2_def ustr_def cp_def isspace_def del: drop_append)
    next
      case c2: False
      show ?thesis
      proof (cases A3)
        case True
        with a' c1 c2 have "v = JBool False" "r' = drop 5 (s @ w)" by (simp_all del: drop_append)
        moreover from True c1 c2 this have "scan_constant s = Inr (v, drop 5 s)" by (simp add: sc)
        ultimately show ?thesis using True ns
          by (intro L [of 5 "ustr ''false''"]) (simp_all add: A3_def ustr_def cp_def isspace_def del: drop_append)
      next
        case c3: False
        show ?thesis
        proof (cases "match_number s")
          case (Some q)
          obtain i f e r where q: "q = (i, f, e, r)" by (cases q)
          from a' c1 c2 c3 Some q
          have "(if f \<noteq> [] \<or> e \<noteq> [] then Inr (JFloat (i @ f @ e), r @ w)
                 else (case parse_int i of Inl x \<Rightarrow> Inl x | Inr n \<Rightarrow> Inr (JInt n, r @ w)))
                = Inr (v, r')"
            by simp
          then have r': "r' = r @ w"
            and v: "(if f \<noteq> [] \<or> e \<noteq> [] then Inr (JFloat (i @ f @ e), r)
                 else (case parse_int i of Inl x \<Rightarrow> Inl x | Inr n \<Rightarrow> Inr (JInt n, r)))
                = (Inr (v, r) :: scanned)"
            by (auto split: if_splits sum.splits)
          from c1 c2 c3 Some q v have "scan_constant s = Inr (v, r)" by (simp add: sc)
          moreover have "\<exists>y c. s = y @ c # r \<and> \<not> isspace c"
            using Some q by (intro match_number_trunc(2) [OF w, of s i f e r]) simp
          ultimately show ?thesis using r' by blast
        next
          case None
          show ?thesis
          proof (cases A4)
            case True
            with a' c1 c2 c3 None have "v = JNaN" "r' = drop 3 (s @ w)"
              by (simp_all del: drop_append)
            moreover from True c1 c2 c3 None this have "scan_constant s = Inr (v, drop 3 s)"
              by (simp add: sc)
            ultimately show ?thesis using True ns
              by (intro L [of 3 "ustr ''NaN''"]) (simp_all add: A4_def ustr_def cp_def isspace_def del: drop_append)
          next
            case c4: False
            show ?thesis
            proof (cases A5)
              case True
              with a' c1 c2 c3 c4 None have "v = JInfinity" "r' = drop 8 (s @ w)"
                by (simp_all del: drop_append)
              moreover from True c1 c2 c3 c4 None this have "scan_constant s = Inr (v, drop 8 s)"
                by (simp add: sc)
              ultimately show ?thesis using True ns
                by (intro L [of 8 "ustr ''Infinity''"]) (simp_all add: A5_def ustr_def cp_def isspace_def del: drop_append)
            next
              case c5: False
              show ?thesis
              proof (cases A6)
                case True
                with a' c1 c2 c3 c4 c5 None have "v = JNegInfinity" "r' = drop 9 (s @ w)"
                  by (simp_all del: drop_append)
                moreover from True c1 c2 c3 c4 c5 None this
                have "scan_constant s = Inr (v, drop 9 s)"
                  by (simp add: sc)
                ultimately show ?thesis using True ns
                  by (intro L [of 9 "ustr ''-Infinity''"]) (simp_all add: A6_def ustr_def cp_def isspace_def del: drop_append)
              next
                case False
                with a' c1 c2 c3 c4 c5 None show ?thesis by simp
              qed
            qed
          qed
        qed
      qed
    qed
  qed
qed

lemma consumed_prefix:
  "\<exists>y c. s = y @ c # r \<and> \<not> isspace c \<Longrightarrow> \<exists>y c. p @ s = y @ c # r \<and> \<not> isspace c"
  by (metis append.assoc)

lemma consumed_shorter: "\<exists>y c. s = y @ c # r \<and> \<not> isspace (c::nat) \<Longrightarrow> length r < length s"
  by auto

lemma skip_ws_suffix: "\<exists>p. a = p @ skip_ws a"
  unfolding skip_ws_def by (metis takeWhile_dropWhile_id)

lemma take1_append: "a \<noteq> [] \<Longrightarrow> take 1 (a @ w) = take 1 a"
  by (cases a) simp_all

lemma drop1_append: "a \<noteq> [] \<Longrightarrow> drop 1 (a @ w) = drop 1 a @ w"
  by (cases a) simp_all

lemma take1_D: "take 1 a = [c] \<Longrightarrow> a = c # drop 1 a"
  by (cases a) simp_all

lemma not_space_punct:
  "\<not> isspace (cp CHR '']'')" "\<not> isspace (cp CHR ''}'')" "\<not> isspace (cp CHR '','')"
  "\<not> isspace (cp CHR '':'')" "\<not> isspace (cp CHR 0x22)"
  by (simp_all add: isspace_def cp_def)

lemma JSONArray_loop_trunc:
  assumes w: "set w \<subseteq> set WHITESPACE_STR"
    and sc: "\<And>x v r'. length x \<le> N \<Longrightarrow> sc (x @ w) = Inr (v, r') \<Longrightarrow>
               \<exists>r. r' = r @ w \<and> sc' x = Inr (v, r) \<and> (\<exists>y c. x = y @ c # r \<and> \<not> isspace c)"
    and nil: "\<And>v r. sc [] \<noteq> Inr (v, r)"
  shows "length s \<le> N \<Longrightarrow> length s < k' \<Longrightarrow> JSONArray_loop sc k vals (s @ w) = Inr (v, r') \<Longrightarrow>
         \<exists>r. r' = r @ w \<and> JSONArray_loop sc' k' vals s = Inr (v, r) \<and>
             (\<exists>y c. s = y @ c # r \<and> \<not> isspace c)"
proof (induction k arbitrary: vals s k')
  case 0
  then show ?case by simp
next
  case (Suc k)
  from Suc.prems(2) obtain k'' where k': "k' = Suc k''" by (cases k') auto
  from Suc.prems(3) obtain val s1' where "expecting_value (sc (s @ w)) = Inr (val, s1')"
    by (cases "expecting_value (sc (s @ w))") auto
  then have e: "sc (s @ w) = Inr (val, s1')" by (simp add: expecting_value_Inr)
  from sc [OF Suc.prems(1) e] obtain s1 where s1: "s1' = s1 @ w" and e': "sc' s = Inr (val, s1)"
    and cs: "\<exists>y c. s = y @ c # s1 \<and> \<not> isspace c"
    by blast
  from cs have l1: "length s1 < length s" by (rule consumed_shorter)
  define s2 where "s2 = skip_ws s1"
  obtain p1 where p1: "s1 = p1 @ s2" unfolding s2_def using skip_ws_suffix by blast
  have l2: "length s2 \<le> length s1" unfolding s2_def by (rule length_skip_ws)
  define vals' where "vals' = vals @ [val]"
  have step: "JSONArray_loop sc (Suc k) vals (s @ w) =
      (if take 1 (skip_ws (s1 @ w)) = ustr '']'' then Inr (JArray vals', drop 1 (skip_ws (s1 @ w)))
       else if take 1 (skip_ws (s1 @ w)) \<noteq> ustr '',''
         then Inl (Raise (ustr ''Expecting ',' delimiter'') (length (skip_ws (s1 @ w))))
       else JSONArray_loop sc k vals' (skip_ws (drop 1 (skip_ws (s1 @ w)))))"
    using e s1 by (simp add: expecting_value_def Let_def vals'_def del: drop_append take_append)
  have step': "JSONArray_loop sc' k' vals s =
      (if take 1 s2 = ustr '']'' then Inr (JArray vals', drop 1 s2)
       else if take 1 s2 \<noteq> ustr '',''
         then Inl (Raise (ustr ''Expecting ',' delimiter'') (length s2))
       else JSONArray_loop sc' k'' vals' (skip_ws (drop 1 s2)))"
    using e' k' by (simp add: expecting_value_def Let_def vals'_def s2_def)
  show ?case
  proof (cases "s2 = []")
    case True
    then have "skip_ws (s1 @ w) = []" using skip_ws_append [OF w, of s1] by (simp add: s2_def)
    with Suc.prems(3) step show ?thesis by (simp add: ustr_def)
  next
    case False
    then have sw: "skip_ws (s1 @ w) = s2 @ w" using skip_ws_append [OF w, of s1] by (simp add: s2_def)
    have t1: "take 1 (s2 @ w) = take 1 s2" and d1: "drop 1 (s2 @ w) = drop 1 s2 @ w"
      using False by (rule take1_append, rule drop1_append)
    note stepw = step [unfolded sw t1 d1]
    show ?thesis
    proof (cases "take 1 s2 = ustr '']''")
      case True
      with Suc.prems(3) stepw have v: "v = JArray vals'" and r': "r' = drop 1 s2 @ w" by simp_all
      from True step' v have "JSONArray_loop sc' k' vals s = Inr (v, drop 1 s2)" by simp
      moreover from True have "s2 = cp CHR '']'' # drop 1 s2" by (intro take1_D) (simp add: ustr_def)
      with p1 have "s1 = p1 @ cp CHR '']'' # drop 1 s2" by simp
      with cs have "\<exists>y c. s = y @ c # drop 1 s2 \<and> \<not> isspace c"
        using not_space_punct(1) by (metis append.assoc append_Cons)
      ultimately show ?thesis using r' by blast
    next
      case nc: False
      show ?thesis
      proof (cases "take 1 s2 = ustr '',''")
        case False
        with Suc.prems(3) stepw nc show ?thesis by simp
      next
        case True
        define s3 where "s3 = skip_ws (drop 1 s2)"
        from Suc.prems(3) stepw nc True
        have rec: "JSONArray_loop sc k vals' (skip_ws (drop 1 s2 @ w)) = Inr (v, r')" by simp
        from step' nc True
        have rec': "JSONArray_loop sc' k' vals s = JSONArray_loop sc' k'' vals' s3"
          by (simp add: s3_def)
        show ?thesis
        proof (cases "s3 = []")
          case True
          then have "skip_ws (drop 1 s2 @ w) = []"
            using skip_ws_append [OF w, of "drop 1 s2"] by (simp add: s3_def)
          with rec have l0: "JSONArray_loop sc k vals' [] = Inr (v, r')" by simp
          then obtain j where "k = Suc j" by (cases k) auto
          with l0 obtain q where "expecting_value (sc []) = Inr q"
            by (cases "expecting_value (sc [])") auto
          then have "sc [] = Inr (fst q, snd q)" by (simp add: expecting_value_Inr)
          with nil show ?thesis by blast
        next
          case False
          then have "skip_ws (drop 1 s2 @ w) = s3 @ w"
            using skip_ws_append [OF w, of "drop 1 s2"] by (simp add: s3_def)
          with rec have rec3: "JSONArray_loop sc k vals' (s3 @ w) = Inr (v, r')" by simp
          have "length s3 \<le> length (drop 1 s2)" unfolding s3_def by (rule length_skip_ws)
          with l1 l2 have l3: "length s3 < length s" by simp
          with Suc.prems(1,2) k' have "length s3 \<le> N" "length s3 < k''" by simp_all
          from Suc.IH [OF this rec3] obtain r where r: "r' = r @ w"
            and lr: "JSONArray_loop sc' k'' vals' s3 = Inr (v, r)"
            and c3: "\<exists>y c. s3 = y @ c # r \<and> \<not> isspace c"
            by blast
          obtain p3 where "drop 1 s2 = p3 @ s3" unfolding s3_def using skip_ws_suffix by blast
          moreover from True have "s2 = cp CHR '','' # drop 1 s2" by (intro take1_D) (simp add: ustr_def)
          ultimately have "s1 = (p1 @ cp CHR '','' # p3) @ s3" using p1 by simp
          moreover obtain y c where "s = (y @ [c]) @ s1" using cs by auto
          ultimately have "s = (y @ [c] @ p1 @ cp CHR '','' # p3) @ s3" by simp
          with c3 have "\<exists>y c. s = y @ c # r \<and> \<not> isspace c" by (metis consumed_prefix)
          with r lr rec' show ?thesis by simp
        qed
      qed
    qed
  qed
qed

lemma JSONObject_loop_trunc:
  assumes w: "set w \<subseteq> set WHITESPACE_STR"
    and sc: "\<And>x v r'. length x \<le> N \<Longrightarrow> sc (x @ w) = Inr (v, r') \<Longrightarrow>
               \<exists>r. r' = r @ w \<and> sc' x = Inr (v, r) \<and> (\<exists>y c. x = y @ c # r \<and> \<not> isspace c)"
    and nil: "\<And>v r. sc [] \<noteq> Inr (v, r)"
  shows "length s \<le> N \<Longrightarrow> length s < k' \<Longrightarrow> JSONObject_loop sc k pairs (s @ w) = Inr (v, r') \<Longrightarrow>
         \<exists>r. r' = r @ w \<and> JSONObject_loop sc' k' pairs s = Inr (v, r) \<and>
             (\<exists>y c. s = y @ c # r \<and> \<not> isspace c)"
proof (induction k arbitrary: pairs s k')
  case 0
  then show ?case by simp
next
  case (Suc k)
  note run = Suc.prems(3)
  note evl = JSONObject_loop.simps(2) sum.case prod.case Let_def simp_thms if_True if_False
  from Suc.prems(2) obtain k'' where k': "k' = Suc k''" by (cases k') auto
  \<comment> \<open>the key\<close>
  from run obtain key s1' where "py_scanstring (Suc (length (s @ w))) [] (s @ w) = Inr (key, s1')"
    by (cases "py_scanstring (Suc (length (s @ w))) [] (s @ w)") auto
  from py_scanstring_trunc [OF w this, of "Suc (length s)"] this
  obtain s1 x1 where kw: "py_scanstring (Suc (length (s @ w))) [] (s @ w) = Inr (key, s1 @ w)"
    and ks: "py_scanstring (Suc (length s)) [] s = Inr (key, s1)"
    and x1: "s = x1 @ cp CHR 0x22 # s1"
    by blast
  \<comment> \<open>the colon\<close>
  define s2 where "s2 = skip_ws s1"
  obtain p1 where p1: "s1 = p1 @ s2" unfolding s2_def using skip_ws_suffix by blast
  have ne2: "s2 \<noteq> []"
  proof
    assume "s2 = []"
    then have "skip_ws (s1 @ w) = []" using skip_ws_append [OF w, of s1] by (simp add: s2_def)
    with run show False unfolding evl kw by (simp add: ustr_def)
  qed
  then have sw2: "skip_ws (s1 @ w) = s2 @ w"
    using skip_ws_append [OF w, of s1] by (simp add: s2_def)
  have t2w: "take 1 (s2 @ w) = take 1 s2" and d2: "drop 1 (s2 @ w) = drop 1 s2 @ w"
    using ne2 by (rule take1_append, rule drop1_append)
  have t2: "take 1 s2 = ustr '':''"
  proof (rule ccontr)
    assume "take 1 s2 \<noteq> ustr '':''"
    with run show False unfolding evl kw sw2 t2w by simp
  qed
  define q2 where "q2 = drop 1 s2"
  from t2 have c2: "s2 = cp CHR '':'' # q2" unfolding q2_def by (intro take1_D) (simp add: ustr_def)
  \<comment> \<open>the value\<close>
  define s3 where "s3 = skip_ws (drop 1 s2)"
  obtain p3 where p3: "q2 = p3 @ s3" unfolding s3_def q2_def using skip_ws_suffix by blast
  obtain val s4' where ev: "expecting_value (sc (skip_ws (drop 1 s2 @ w))) = Inr (val, s4')"
    using run unfolding evl kw sw2 t2w d2 t2
    by (cases "expecting_value (sc (skip_ws (drop 1 s2 @ w)))") auto
  have ne3: "s3 \<noteq> []"
  proof
    assume "s3 = []"
    then have "skip_ws (drop 1 s2 @ w) = []"
      using skip_ws_append [OF w, of "drop 1 s2"] by (simp add: s3_def)
    with ev have "expecting_value (sc []) = Inr (val, s4')" by (simp only:)
    then have "sc [] = Inr (val, s4')" by (simp add: expecting_value_Inr)
    with nil show False by blast
  qed
  then have sw3: "skip_ws (drop 1 s2 @ w) = s3 @ w"
    using skip_ws_append [OF w, of "drop 1 s2"] by (simp add: s3_def)
  have e3: "sc (s3 @ w) = Inr (val, s4')"
    using ev unfolding sw3 by (simp add: expecting_value_Inr)
  have l3: "length s3 < length s"
  proof -
    have "length s3 \<le> length (drop 1 s2)" unfolding s3_def by (rule length_skip_ws)
    moreover have "length s2 \<le> length s1" unfolding s2_def by (rule length_skip_ws)
    ultimately show ?thesis using x1 p1 by simp
  qed
  with Suc.prems(1) have "length s3 \<le> N" by simp
  from sc [OF this e3] obtain s4 where s4: "s4' = s4 @ w" and e3': "sc' s3 = Inr (val, s4)"
    and c4: "\<exists>y c. s3 = y @ c # s4 \<and> \<not> isspace c"
    by blast
  from c4 have l4: "length s4 < length s3" by (rule consumed_shorter)
  have evw: "expecting_value (sc (s3 @ w)) = Inr (val, s4 @ w)"
    and ev': "expecting_value (sc' s3) = Inr (val, s4)"
    using e3 e3' s4 by (simp_all add: expecting_value_Inr)
  have pre4: "\<exists>q. s = q @ s4"
  proof -
    from c4 obtain y c where "s3 = y @ c # s4" by blast
    with x1 p1 c2 p3 have "s = (x1 @ cp CHR 0x22 # p1 @ cp CHR '':'' # p3 @ y @ [c]) @ s4"
      by simp
    then show ?thesis by blast
  qed
  \<comment> \<open>the closing brace or the comma\<close>
  define s5 where "s5 = skip_ws s4"
  obtain p5 where p5: "s4 = p5 @ s5" unfolding s5_def using skip_ws_suffix by blast
  note upto4 = kw sw2 t2w d2 t2 sw3 evw
  note upto4' = k' ks s2_def [symmetric] t2 s3_def [symmetric] ev' s5_def [symmetric]
  have ne5: "s5 \<noteq> []"
  proof
    assume "s5 = []"
    then have "skip_ws (s4 @ w) = []" using skip_ws_append [OF w, of s4] by (simp add: s5_def)
    with run show False unfolding evl upto4 by (simp add: ustr_def)
  qed
  then have sw5: "skip_ws (s4 @ w) = s5 @ w"
    using skip_ws_append [OF w, of s4] by (simp add: s5_def)
  have t5w: "take 1 (s5 @ w) = take 1 s5" and d5: "drop 1 (s5 @ w) = drop 1 s5 @ w"
    using ne5 by (rule take1_append, rule drop1_append)
  show ?case
  proof (cases "take 1 s5 = ustr ''}''")
    case True
    from run have "Inr (JObject (dict (pairs @ [(key, val)])), drop 1 s5 @ w) = (Inr (v, r') :: scanned)"
      unfolding evl upto4 sw5 t5w d5 True .
    then have v: "v = JObject (dict (pairs @ [(key, val)]))" and r': "r' = drop 1 s5 @ w" by simp_all
    have "JSONObject_loop sc' k' pairs s = Inr (JObject (dict (pairs @ [(key, val)])), drop 1 s5)"
      unfolding evl upto4' True by simp
    moreover have "\<exists>y c. s = y @ c # drop 1 s5 \<and> \<not> isspace c"
    proof -
      define q5 where "q5 = drop 1 s5"
      from True have "s5 = cp CHR ''}'' # q5" unfolding q5_def by (intro take1_D) (simp add: ustr_def)
      moreover from pre4 obtain q where "s = q @ s4" by blast
      ultimately have "s = (q @ p5) @ cp CHR ''}'' # q5" using p5 by simp
      then show ?thesis unfolding q5_def using not_space_punct(2) by blast
    qed
    ultimately show ?thesis using v r' by blast
  next
    case nb: False
    have t5: "take 1 s5 = ustr '',''"
    proof (rule ccontr)
      assume "take 1 s5 \<noteq> ustr '',''"
      with run nb show False unfolding evl upto4 sw5 t5w by simp
    qed
    define q5 where "q5 = drop 1 s5"
    from t5 have c5: "s5 = cp CHR '','' # q5" unfolding q5_def by (intro take1_D) (simp add: ustr_def)
    define s6 where "s6 = skip_ws (drop 1 s5)"
    obtain p6 where p6: "q5 = p6 @ s6" unfolding s6_def q5_def using skip_ws_suffix by blast
    have ne6: "s6 \<noteq> []"
    proof
      assume "s6 = []"
      then have "skip_ws (drop 1 s5 @ w) = []"
        using skip_ws_append [OF w, of "drop 1 s5"] by (simp add: s6_def)
      with run nb show False unfolding evl upto4 sw5 t5w d5 t5 by simp
    qed
    then have sw6: "skip_ws (drop 1 s5 @ w) = s6 @ w"
      using skip_ws_append [OF w, of "drop 1 s5"] by (simp add: s6_def)
    have t6w: "take 1 (s6 @ w) = take 1 s6" and d6: "drop 1 (s6 @ w) = drop 1 s6 @ w"
      using ne6 by (rule take1_append, rule drop1_append)
    have t6: "take 1 s6 = [cp CHR 0x22]"
    proof (rule ccontr)
      assume "take 1 s6 \<noteq> [cp CHR 0x22]"
      with run nb show False unfolding evl upto4 sw5 t5w d5 t5 sw6 t6w by simp
    qed
    define q6 where "q6 = drop 1 s6"
    from t6 have c6: "s6 = cp CHR 0x22 # q6" unfolding q6_def by (rule take1_D)
    from run nb have rec: "JSONObject_loop sc k (pairs @ [(key, val)]) (drop 1 s6 @ w) = Inr (v, r')"
      unfolding evl upto4 sw5 t5w d5 t5 sw6 t6w d6 t6 by simp
    have rec': "JSONObject_loop sc' k' pairs s =
        JSONObject_loop sc' k'' (pairs @ [(key, val)]) (drop 1 s6)"
      using nb unfolding evl upto4' t5 s6_def [symmetric] t6 by simp
    have pre7: "\<exists>q. s = q @ drop 1 s6"
    proof -
      from pre4 obtain q where "s = q @ s4" by blast
      with p5 c5 p6 c6 have "s = (q @ p5 @ cp CHR '','' # p6 @ [cp CHR 0x22]) @ q6" by simp
      then show ?thesis unfolding q6_def by blast
    qed
    have l7: "length (drop 1 s6) \<le> length s4"
      using p5 c5 p6 c6 by (simp add: q6_def [symmetric])
    with l4 l3 Suc.prems(1,2) k' have "length (drop 1 s6) \<le> N" "length (drop 1 s6) < k''"
      by simp_all
    from Suc.IH [OF this rec] obtain r where r: "r' = r @ w"
      and lr: "JSONObject_loop sc' k'' (pairs @ [(key, val)]) (drop 1 s6) = Inr (v, r)"
      and c7: "\<exists>y c. drop 1 s6 = y @ c # r \<and> \<not> isspace c"
      by blast
    from pre7 c7 have "\<exists>y c. s = y @ c # r \<and> \<not> isspace c" by (metis consumed_prefix)
    with r lr rec' show ?thesis by simp
  qed
qed

lemma JSONArray_loop_Nil:
  assumes nil: "\<And>v r. sc [] \<noteq> Inr (v, r)"
  shows "JSONArray_loop sc k vals [] \<noteq> Inr (v, r)"
proof
  assume l0: "JSONArray_loop sc k vals [] = Inr (v, r)"
  then obtain j where "k = Suc j" by (cases k) auto
  with l0 obtain q where "expecting_value (sc []) = Inr q"
    by (cases "expecting_value (sc [])") auto
  then have "sc [] = Inr (fst q, snd q)" by (simp add: expecting_value_Inr)
  with nil show False by blast
qed

lemma JSONObject_trunc:
  assumes w: "set w \<subseteq> set WHITESPACE_STR"
    and sc: "\<And>x v r'. length x \<le> N \<Longrightarrow> sc (x @ w) = Inr (v, r') \<Longrightarrow>
               \<exists>r. r' = r @ w \<and> sc' x = Inr (v, r) \<and> (\<exists>y c. x = y @ c # r \<and> \<not> isspace c)"
    and nil: "\<And>v r. sc [] \<noteq> Inr (v, r)"
    and len: "length s \<le> N" "length s < k'"
    and run: "JSONObject sc k (s @ w) = Inr (v, r')"
  shows "\<exists>r. r' = r @ w \<and> JSONObject sc' k' s = Inr (v, r) \<and>
             (\<exists>y c. s = y @ c # r \<and> \<not> isspace c)"
proof -
  note evl = JSONObject_def Let_def simp_thms if_True if_False
  define s1 where "s1 = skip_ws s"
  obtain p where p: "s = p @ s1" unfolding s1_def using skip_ws_suffix by blast
  have ne: "s1 \<noteq> []"
  proof
    assume "s1 = []"
    then have "skip_ws (s @ w) = []" using skip_ws_append [OF w, of s] by (simp add: s1_def)
    with run show False unfolding evl by (simp add: ustr_def)
  qed
  then have sw: "skip_ws (s @ w) = s1 @ w"
    using skip_ws_append [OF w, of s] by (simp add: s1_def)
  have t1w: "take 1 (s1 @ w) = take 1 s1" and d1: "drop 1 (s1 @ w) = drop 1 s1 @ w"
    using ne by (rule take1_append, rule drop1_append)
  define q1 where "q1 = drop 1 s1"
  show ?thesis
  proof (cases "take 1 s1 = ustr ''}''")
    case True
    from run have "Inr (JObject [], drop 1 s1 @ w) = (Inr (v, r') :: scanned)"
      unfolding evl sw t1w d1 True .
    then have v: "v = JObject []" and r': "r' = q1 @ w" by (simp_all add: q1_def)
    have "JSONObject sc' k' s = Inr (JObject [], q1)"
      unfolding evl s1_def [symmetric] True q1_def by simp
    moreover from True have "s1 = cp CHR ''}'' # q1" unfolding q1_def
      by (intro take1_D) (simp add: ustr_def)
    with p have "s = p @ cp CHR ''}'' # q1" by simp
    then have "\<exists>y c. s = y @ c # q1 \<and> \<not> isspace c" using not_space_punct(2) by blast
    ultimately show ?thesis using v r' by blast
  next
    case nb: False
    have t1: "take 1 s1 = [cp CHR 0x22]"
    proof (rule ccontr)
      assume "take 1 s1 \<noteq> [cp CHR 0x22]"
      with run nb show False unfolding evl sw t1w by simp
    qed
    then have c1: "s1 = cp CHR 0x22 # q1" unfolding q1_def by (rule take1_D)
    from run nb have rec: "JSONObject_loop sc k [] (q1 @ w) = Inr (v, r')"
      unfolding evl sw t1w d1 t1 q1_def by simp
    have rec': "JSONObject sc' k' s = JSONObject_loop sc' k' [] q1"
      using nb unfolding evl s1_def [symmetric] t1 q1_def by simp
    from p c1 have "length q1 \<le> length s" by simp
    with len have "length q1 \<le> N" "length q1 < k'" by simp_all
    from JSONObject_loop_trunc [of w N sc sc', OF w sc nil this rec]
    obtain r where r: "r' = r @ w" and lr: "JSONObject_loop sc' k' [] q1 = Inr (v, r)"
      and c: "\<exists>y c. q1 = y @ c # r \<and> \<not> isspace c"
      by blast
    from p c1 have "s = (p @ [cp CHR 0x22]) @ q1" by simp
    with c have "\<exists>y c. s = y @ c # r \<and> \<not> isspace c" by (metis consumed_prefix)
    with r lr rec' show ?thesis by simp
  qed
qed

lemma JSONArray_trunc:
  assumes w: "set w \<subseteq> set WHITESPACE_STR"
    and sc: "\<And>x v r'. length x \<le> N \<Longrightarrow> sc (x @ w) = Inr (v, r') \<Longrightarrow>
               \<exists>r. r' = r @ w \<and> sc' x = Inr (v, r) \<and> (\<exists>y c. x = y @ c # r \<and> \<not> isspace c)"
    and nil: "\<And>v r. sc [] \<noteq> Inr (v, r)"
    and len: "length s \<le> N" "length s < k'"
    and run: "JSONArray sc k (s @ w) = Inr (v, r')"
  shows "\<exists>r. r' = r @ w \<and> JSONArray sc' k' s = Inr (v, r) \<and>
             (\<exists>y c. s = y @ c # r \<and> \<not> isspace c)"
proof -
  note evl = JSONArray_def Let_def simp_thms if_True if_False
  define s1 where "s1 = skip_ws s"
  obtain p where p: "s = p @ s1" unfolding s1_def using skip_ws_suffix by blast
  have ne: "s1 \<noteq> []"
  proof
    assume "s1 = []"
    then have "skip_ws (s @ w) = []" using skip_ws_append [OF w, of s] by (simp add: s1_def)
    with run have "JSONArray_loop sc k [] [] = Inr (v, r')" unfolding evl by (simp add: ustr_def)
    with JSONArray_loop_Nil [of sc, OF nil] show False by blast
  qed
  then have sw: "skip_ws (s @ w) = s1 @ w"
    using skip_ws_append [OF w, of s] by (simp add: s1_def)
  have t1w: "take 1 (s1 @ w) = take 1 s1" and d1: "drop 1 (s1 @ w) = drop 1 s1 @ w"
    using ne by (rule take1_append, rule drop1_append)
  define q1 where "q1 = drop 1 s1"
  show ?thesis
  proof (cases "take 1 s1 = ustr '']''")
    case True
    from run have "Inr (JArray [], drop 1 s1 @ w) = (Inr (v, r') :: scanned)"
      unfolding evl sw t1w d1 True .
    then have v: "v = JArray []" and r': "r' = q1 @ w" by (simp_all add: q1_def)
    have "JSONArray sc' k' s = Inr (JArray [], q1)"
      unfolding evl s1_def [symmetric] True q1_def by simp
    moreover from True have "s1 = cp CHR '']'' # q1" unfolding q1_def
      by (intro take1_D) (simp add: ustr_def)
    with p have "s = p @ cp CHR '']'' # q1" by simp
    then have "\<exists>y c. s = y @ c # q1 \<and> \<not> isspace c" using not_space_punct(1) by blast
    ultimately show ?thesis using v r' by blast
  next
    case nb: False
    from run nb have rec: "JSONArray_loop sc k [] (s1 @ w) = Inr (v, r')"
      unfolding evl sw t1w by simp
    have rec': "JSONArray sc' k' s = JSONArray_loop sc' k' [] s1"
      using nb unfolding evl s1_def [symmetric] by simp
    from p have "length s1 \<le> length s" by simp
    with len have "length s1 \<le> N" "length s1 < k'" by simp_all
    from JSONArray_loop_trunc [of w N sc sc', OF w sc nil this rec]
    obtain r where r: "r' = r @ w" and lr: "JSONArray_loop sc' k' [] s1 = Inr (v, r)"
      and c: "\<exists>y c. s1 = y @ c # r \<and> \<not> isspace c"
      by blast
    from p c have "\<exists>y c. s = y @ c # r \<and> \<not> isspace c" by (metis consumed_prefix)
    with r lr rec' show ?thesis by simp
  qed
qed

lemma scan_once_Nil: "scan_once n dp [] \<noteq> Inr (v, r)"
  by (cases n) simp_all

lemma scan_once_trunc:
  assumes w: "set w \<subseteq> set WHITESPACE_STR"
  shows "length s < m \<Longrightarrow> scan_once n dp (s @ w) = Inr (v, r') \<Longrightarrow>
         \<exists>r. r' = r @ w \<and> scan_once m dp s = Inr (v, r) \<and>
             (\<exists>y c. s = y @ c # r \<and> \<not> isspace c)"
proof (induction n arbitrary: s m dp v r')
  case 0
  then show ?case by simp
next
  case (Suc n)
  note run = Suc.prems(2)
  from Suc.prems(1) obtain m' where m: "m = Suc m'" by (cases m) auto
  have quote: "cp CHR 0x22 \<notin> set WHITESPACE_STR" and brace: "cp CHR ''{'' \<notin> set WHITESPACE_STR"
    and bracket: "cp CHR ''['' \<notin> set WHITESPACE_STR"
    by (simp_all add: ws_iff cp_def)
  have tq: "take 1 (s @ w) = [cp CHR 0x22] \<longleftrightarrow> take 1 s = [cp CHR 0x22]"
    by (rule take1_ws [OF w quote])
  have tb: "take 1 (s @ w) = ustr ''{'' \<longleftrightarrow> take 1 s = ustr ''{''"
    using take1_ws [OF w brace, of s] by (simp add: ustr_def)
  have tk: "take 1 (s @ w) = ustr ''['' \<longleftrightarrow> take 1 s = ustr ''[''"
    using take1_ws [OF w bracket, of s] by (simp add: ustr_def)
  note evl = scan_once.simps(2) tq tb tk simp_thms if_True if_False
  have sw_ne: "s @ w \<noteq> []" using run by auto
  have inner: "\<exists>r. r' = r @ w \<and> scan_once m' (dp - 1) x = Inr (v, r) \<and>
        (\<exists>y c. x = y @ c # r \<and> \<not> isspace c)"
    if "length x \<le> length (drop 1 s)" "scan_once n (dp - 1) (x @ w) = Inr (v, r')" "s \<noteq> []"
    for x v r'
  proof -
    from that(1,3) Suc.prems(1) m have "length x < m'" by (cases s) simp_all
    from Suc.IH [OF this that(2)] show ?thesis .
  qed
  show ?case
  proof (cases "take 1 s = [cp CHR 0x22]")
    case True
    then have ne: "s \<noteq> []" by auto
    define q where "q = drop 1 s"
    from True have c: "s = cp CHR 0x22 # q" unfolding q_def by (rule take1_D)
    have d: "drop 1 (s @ w) = q @ w" unfolding q_def using ne by (rule drop1_append)
    from run ne True have "parse_string (s @ w) = Inr (v, r')" unfolding evl by simp
    then obtain str where ps: "py_scanstring (length (s @ w)) [] (q @ w) = Inr (str, r')"
      and v: "v = JString str"
      unfolding parse_string_def d
      by (cases "py_scanstring (length (s @ w)) [] (q @ w)") auto
    from py_scanstring_trunc [OF w ps, of "length s"] obtain r x where r: "r' = r @ w"
      and ps': "py_scanstring (length s) [] q = Inr (str, r)" and x: "q = x @ cp CHR 0x22 # r"
      by blast
    from ps' v have "parse_string s = Inr (v, r)" by (simp add: parse_string_def q_def)
    with True ne have "scan_once m dp s = Inr (v, r)" unfolding m evl by simp
    moreover from c x have "s = (cp CHR 0x22 # x) @ cp CHR 0x22 # r" by simp
    then have "\<exists>y c. s = y @ c # r \<and> \<not> isspace c" using not_space_punct(5) by blast
    ultimately show ?thesis using r by blast
  next
    case nq: False
    show ?thesis
    proof (cases "take 1 s = ustr ''{''")
      case True
      then have ne: "s \<noteq> []" by (auto simp: ustr_def)
      define q where "q = drop 1 s"
      from True have c: "s = cp CHR ''{'' # q" unfolding q_def by (intro take1_D) (simp add: ustr_def)
      have d: "drop 1 (s @ w) = q @ w" unfolding q_def using ne by (rule drop1_append)
      have dp: "dp \<noteq> 0"
      proof
        assume "dp = 0"
        with run ne nq True show False unfolding evl by simp
      qed
      with run ne nq True
      have rec: "JSONObject (\<lambda>s. scan_once n (dp - 1) s) n (q @ w) = Inr (v, r')"
        unfolding evl d by simp
      have len: "length q \<le> length (drop 1 s)" "length q < m'"
        unfolding q_def [symmetric] using Suc.prems(1) m c by simp_all
      have "\<exists>r. r' = r @ w \<and> JSONObject (\<lambda>s. scan_once m' (dp - 1) s) m' q = Inr (v, r) \<and>
             (\<exists>y c. q = y @ c # r \<and> \<not> isspace c)"
      proof (rule JSONObject_trunc [OF w _ _ len rec])
        fix x va ra
        assume "length x \<le> length (drop 1 s)" "scan_once n (dp - 1) (x @ w) = Inr (va, ra)"
        then show "\<exists>r. ra = r @ w \<and> scan_once m' (dp - 1) x = Inr (va, r) \<and>
            (\<exists>y c. x = y @ c # r \<and> \<not> isspace c)"
          using ne by (rule inner)
      next
        fix va ra show "scan_once n (dp - 1) [] \<noteq> Inr (va, ra)" by (rule scan_once_Nil)
      qed
      then obtain r where r: "r' = r @ w"
        and o: "JSONObject (\<lambda>s. scan_once m' (dp - 1) s) m' q = Inr (v, r)"
        and cq: "\<exists>y c. q = y @ c # r \<and> \<not> isspace c"
        by blast
      from nq True ne dp o have "scan_once m dp s = Inr (v, r)" unfolding m evl q_def by simp
      moreover from c cq have "\<exists>y c. s = y @ c # r \<and> \<not> isspace c"
        using consumed_prefix [of q r "[cp CHR ''{'']"] by simp
      ultimately show ?thesis using r by blast
    next
      case nb: False
      show ?thesis
      proof (cases "take 1 s = ustr ''[''")
        case True
        then have ne: "s \<noteq> []" by (auto simp: ustr_def)
        define q where "q = drop 1 s"
        from True have c: "s = cp CHR ''['' # q" unfolding q_def by (intro take1_D) (simp add: ustr_def)
        have d: "drop 1 (s @ w) = q @ w" unfolding q_def using ne by (rule drop1_append)
        have dp: "dp \<noteq> 0"
        proof
          assume "dp = 0"
          with run ne nq nb True show False unfolding evl by simp
        qed
        with run ne nq nb True
        have rec: "JSONArray (\<lambda>s. scan_once n (dp - 1) s) n (q @ w) = Inr (v, r')"
          unfolding evl d by simp
        have len: "length q \<le> length (drop 1 s)" "length q < m'"
          unfolding q_def [symmetric] using Suc.prems(1) m c by simp_all
        have "\<exists>r. r' = r @ w \<and> JSONArray (\<lambda>s. scan_once m' (dp - 1) s) m' q = Inr (v, r) \<and>
               (\<exists>y c. q = y @ c # r \<and> \<not> isspace c)"
        proof (rule JSONArray_trunc [OF w _ _ len rec])
          fix x va ra
          assume "length x \<le> length (drop 1 s)" "scan_once n (dp - 1) (x @ w) = Inr (va, ra)"
          then show "\<exists>r. ra = r @ w \<and> scan_once m' (dp - 1) x = Inr (va, r) \<and>
              (\<exists>y c. x = y @ c # r \<and> \<not> isspace c)"
            using ne by (rule inner)
        next
          fix va ra show "scan_once n (dp - 1) [] \<noteq> Inr (va, ra)" by (rule scan_once_Nil)
        qed
        then obtain r where r: "r' = r @ w"
          and o: "JSONArray (\<lambda>s. scan_once m' (dp - 1) s) m' q = Inr (v, r)"
          and cq: "\<exists>y c. q = y @ c # r \<and> \<not> isspace c"
          by blast
        from nq nb True ne dp o have "scan_once m dp s = Inr (v, r)" unfolding m evl q_def by simp
        moreover from c cq have "\<exists>y c. s = y @ c # r \<and> \<not> isspace c"
          using consumed_prefix [of q r "[cp CHR ''['']"] by simp
        ultimately show ?thesis using r by blast
      next
        case nk: False
        have "scan_constant (s @ w) = Inr (v, r')"
        proof (cases "s = []")
          case True
          with run sw_ne show ?thesis unfolding evl by (simp add: ustr_def)
        next
          case False
          with run nq nb nk show ?thesis unfolding evl by simp
        qed
        from scan_constant_trunc [OF w this] obtain r where r: "r' = r @ w"
          and sc: "scan_constant s = Inr (v, r)" and c: "\<exists>y c. s = y @ c # r \<and> \<not> isspace c"
          by blast
        from c have "s \<noteq> []" by auto
        with nq nb nk sc have "scan_once m dp s = Inr (v, r)" unfolding m evl by simp
        with r c show ?thesis by blast
      qed
    qed
  qed
qed

lemma match_number_hd:
  assumes "match_number s = Some q"
  shows "s \<noteq> [] \<and> (hd s = cp CHR ''-'' \<or> isdigit (hd s))"
proof (cases "take 1 s = ustr ''-''")
  case True
  then show ?thesis by (cases s) (auto simp: ustr_def)
next
  case False
  show ?thesis
  proof (cases s)
    case Nil
    then have "match_number s = None" by (simp add: match_number_def ustr_def)
    with assms show ?thesis by simp
  next
    case (Cons d s2)
    have "isdigit d"
    proof (rule ccontr)
      assume "\<not> isdigit d"
      with False Cons have "match_number s = None" by (simp add: match_number_def Let_def)
      with assms show False by simp
    qed
    with Cons show ?thesis by simp
  qed
qed

lemma value_start:
  "c = cp CHR 0x22 \<or> c = cp CHR ''{'' \<or> c = cp CHR ''['' \<or> c = cp CHR ''n'' \<or> c = cp CHR ''t'' \<or>
   c = cp CHR ''f'' \<or> c = cp CHR ''N'' \<or> c = cp CHR ''I'' \<or> c = cp CHR ''-'' \<or> isdigit c \<Longrightarrow>
   \<not> isspace c \<and> c \<noteq> 0xfeff \<and> c \<noteq> cp CHR ''`''"
  by (auto simp: isspace_def isdigit_def cp_def)

lemma scan_constant_hd:
  assumes "scan_constant s = Inr (v, r)"
  shows "s \<noteq> [] \<and> \<not> isspace (hd s) \<and> hd s \<noteq> 0xfeff \<and> hd s \<noteq> cp CHR ''`''"
proof -
  have t: "take 1 s = ustr [c] \<Longrightarrow> s \<noteq> [] \<and> hd s = cp c" for c
    by (cases s) (auto simp: ustr_def)
  from assms consider "take 1 s = ustr ''n''" | "take 1 s = ustr ''t''" | "take 1 s = ustr ''f''"
    | "take 1 s = ustr ''N''" | "take 1 s = ustr ''I''" | "take 1 s = ustr ''-''"
    | q where "match_number s = Some q"
    by (cases "match_number s") (auto simp: scan_constant_def Let_def split: if_splits)
  then have "s \<noteq> [] \<and> (hd s = cp CHR ''n'' \<or> hd s = cp CHR ''t'' \<or> hd s = cp CHR ''f'' \<or>
      hd s = cp CHR ''N'' \<or> hd s = cp CHR ''I'' \<or> hd s = cp CHR ''-'' \<or> isdigit (hd s))"
    using t match_number_hd by cases auto
  then show ?thesis using value_start [of "hd s"] by blast
qed

lemma scan_once_hd:
  assumes "scan_once n dp s = Inr (v, r)"
  shows "s \<noteq> [] \<and> \<not> isspace (hd s) \<and> hd s \<noteq> 0xfeff \<and> hd s \<noteq> cp CHR ''`''"
proof -
  from assms obtain n' where n: "n = Suc n'" by (cases n) auto
  from assms n have ne: "s \<noteq> []" by auto
  have t: "take 1 s = [c] \<Longrightarrow> hd s = c" for c
    by (cases s) auto
  show ?thesis
  proof (cases "take 1 s = [cp CHR 0x22] \<or> take 1 s = ustr ''{'' \<or> take 1 s = ustr ''[''")
    case True
    then have "hd s = cp CHR 0x22 \<or> hd s = cp CHR ''{'' \<or> hd s = cp CHR ''[''"
      using t by (auto simp: ustr_def)
    with ne value_start [of "hd s"] show ?thesis by blast
  next
    case False
    with assms n ne have "scan_constant s = Inr (v, r)" by simp
    then show ?thesis by (rule scan_constant_hd)
  qed
qed

lemma lstrip_skip_ws:
  assumes "skip_ws t \<noteq> []" "\<not> isspace (hd (skip_ws t))"
  shows "lstrip t = skip_ws t"
proof -
  have t: "t = takeWhile (\<lambda>c. c \<in> set WHITESPACE_STR) t @ skip_ws t"
    by (simp add: skip_ws_def)
  have "dropWhile isspace (skip_ws t) = skip_ws t"
    using assms by (cases "skip_ws t") simp_all
  moreover have "\<forall>c\<in>set (takeWhile (\<lambda>c. c \<in> set WHITESPACE_STR) t). isspace c"
    by (auto dest!: set_takeWhileD ws_isspace)
  ultimately have "dropWhile isspace (takeWhile (\<lambda>c. c \<in> set WHITESPACE_STR) t @ skip_ws t) = skip_ws t"
    by (simp add: dropWhile_append)
  with t show ?thesis by (simp add: lstrip_def)
qed

lemma rstrip_consumed:
  assumes "set rest \<subseteq> set WHITESPACE_STR" "\<not> isspace c"
  shows "rstrip (y @ c # rest) = y @ [c]"
proof -
  have "\<forall>x\<in>set (rev rest). isspace x" using assms(1) by (auto dest: ws_isspace)
  then have "dropWhile isspace (rev rest @ c # rev y) = c # rev y"
    using assms(2) by (simp add: dropWhile_append)
  then show ?thesis by (simp add: rstrip_def)
qed

lemma decode_Inr_iff:
  "decode t = Inr v \<longleftrightarrow> (\<exists>rest. raw_decode (skip_ws t) = Inr (v, rest) \<and> skip_ws rest = [])"
proof (cases "raw_decode (skip_ws t)")
  case (Inl e)
  then show ?thesis by (cases e) (simp_all add: decode_def)
next
  case (Inr p)
  obtain obj rest where "p = (obj, rest)" by (cases p)
  with Inr show ?thesis by (auto simp: decode_def)
qed

lemma json_loads_Inr_iff:
  "json_loads t = Inr v \<longleftrightarrow>
     take 1 t \<noteq> [0xfeff] \<and>
     (\<exists>rest. scan_once (Suc (length (skip_ws t))) recursion_headroom (skip_ws t) = Inr (v, rest) \<and>
             skip_ws rest = [])"
  by (simp add: json_loads_def decode_Inr_iff raw_decode_def expecting_value_Inr)

lemma json_loads_strip:
  assumes "json_loads t = Inr v"
  shows "json_loads (strip t) = Inr v" and "\<not> startswith (strip t) fence"
proof -
  define u where "u = skip_ws t"
  from assms obtain rest where run: "scan_once (Suc (length u)) recursion_headroom u = Inr (v, rest)"
    and rest: "skip_ws rest = []"
    unfolding json_loads_Inr_iff u_def by blast
  from rest have w: "set rest \<subseteq> set WHITESPACE_STR" by (simp add: skip_ws_Nil_iff)
  from scan_once_hd [OF run] have hd: "u \<noteq> []" "\<not> isspace (hd u)" "hd u \<noteq> 0xfeff" "hd u \<noteq> cp CHR ''`''"
    by simp_all
  have e: "set [] \<subseteq> set WHITESPACE_STR" by simp
  from scan_once_trunc [OF e, of u "Suc (length u)" "Suc (length u)" recursion_headroom v rest] run
  obtain y c where yc: "u = y @ c # rest" and c: "\<not> isspace c" by auto
  define x where "x = y @ [c]"
  have ux: "u = x @ rest" by (simp add: yc x_def)
  have hx: "x \<noteq> []" "hd x = hd u" by (simp_all add: x_def yc hd_append)
  from run have "scan_once (Suc (length u)) recursion_headroom (x @ rest) = Inr (v, rest)"
    by (simp add: ux)
  from scan_once_trunc [OF w _ this, of "Suc (length x)"]
  have runx: "scan_once (Suc (length x)) recursion_headroom x = Inr (v, [])" by auto
  have "lstrip t = u" unfolding u_def using hd(1,2) by (intro lstrip_skip_ws) (simp_all add: u_def)
  moreover have "rstrip u = x" unfolding yc x_def using w c by (rule rstrip_consumed)
  ultimately have s: "strip t = x" by (simp add: strip_def)
  have "c' \<in> set WHITESPACE_STR \<Longrightarrow> hd x \<noteq> c'" for c'
    using hd(2) hx(2) by (auto dest: ws_isspace)
  then have sx: "skip_ws x = x" using hx(1) by (cases x) (auto simp: skip_ws_def)
  have "take 1 x \<noteq> [0xfeff]" using hx hd(3) by (cases x) auto
  with runx sx show "json_loads (strip t) = Inr v"
    unfolding s json_loads_Inr_iff by (simp add: skip_ws_def)
  have "hd x \<noteq> cp CHR ''`''" using hx(2) hd(4) by simp
  then show "\<not> startswith (strip t) fence"
    unfolding s using hx(1) by (cases x) (auto simp: startswith_def fence_def ustr_def)
qed

section \<open>Valid payloads, bare and inside a fence\<close>

lemma rstrip_idem: "rstrip (rstrip s) = rstrip s"
  by (simp add: rstrip_def)

lemma lstrip_rstrip_lstrip: "lstrip (rstrip (lstrip s)) = rstrip (lstrip s)"
proof (cases "rstrip (lstrip s)")
  case Nil
  then show ?thesis by (simp add: lstrip_def)
next
  case (Cons c cs)
  define a where "a = lstrip s"
  have "\<exists>t. a = rstrip a @ t"
    unfolding rstrip_def by (metis rev_append rev_rev_ident takeWhile_dropWhile_id)
  with Cons obtain t where "a = (c # cs) @ t" by (auto simp: a_def)
  then have "hd a = c" by simp
  moreover have "a = [] \<or> \<not> isspace (hd a)"
    unfolding a_def lstrip_def by (metis hd_dropWhile)
  ultimately have "\<not> isspace c" using \<open>a = (c # cs) @ t\<close> by auto
  with Cons show ?thesis by (simp add: lstrip_def)
qed

lemma strip_idem: "strip (strip s) = strip s"
  by (simp add: strip_def lstrip_rstrip_lstrip rstrip_idem)

lemma strip_Nil: "strip [] = []"
  by (simp add: strip_def lstrip_def rstrip_def)

lemma try_fix_json_strip: "try_fix_json (strip c) = try_fix_json c"
proof (cases "unbalanced c")
  case False
  then have "\<not> unbalanced (strip c)" by (simp add: unbalanced_strip)
  with False show ?thesis by (simp add: try_fix_json_None_iff [symmetric])
next
  case True
  then have u: "unbalanced (strip c)" by (simp add: unbalanced_strip)
  show ?thesis
    using try_fix_json_unbalanced [OF True refl] try_fix_json_unbalanced [OF u refl]
    by (simp add: strip_idem)
qed




lemma decode_or_repair_strip:
  assumes "strip c = c \<or> (\<exists>v. json_loads c = Inr v) \<or>
      (\<exists>m d p m' d' p' f. json_loads c = Inl (JSONDecodeError m d p) \<and>
         json_loads (strip c) = Inl (JSONDecodeError m' d' p') \<and>
         try_fix_json c = Some f \<and> f \<noteq> [] \<and>
         (\<forall>m'' d'' p''. json_loads f \<noteq> Inl (JSONDecodeError m'' d'' p'')))"
  shows "decode_or_repair (strip c) = decode_or_repair c"
  using assms
proof (elim disjE exE conjE)
  assume "strip c = c"
  then show ?thesis by simp
next
  fix v assume l: "json_loads c = Inr v"
  then have "json_loads (strip c) = Inr v" by (rule json_loads_strip)
  with l show ?thesis by (simp add: decode_or_repair_def)
next
  fix m d p m' d' p' f
  assume l: "json_loads c = Inl (JSONDecodeError m d p)"
    and l': "json_loads (strip c) = Inl (JSONDecodeError m' d' p')"
    and t: "try_fix_json c = Some f" and f: "f \<noteq> []"
    and n: "\<forall>m'' d'' p''. json_loads f \<noteq> Inl (JSONDecodeError m'' d'' p'')"
  from t have t': "try_fix_json (strip c) = Some f" by (simp add: try_fix_json_strip)
  from n show ?thesis
    by (cases f rule: json_loads_cases) (simp_all add: decode_or_repair_def l l' t t' f)
qed

text \<open>
  Claim C5, as stated, fails: without a fence the text is trimmed before it is
  decoded, inside a fence it is not, so for a payload with white space around it that
  ends in the diagnostic mapping the two results differ (in \<^verbatim>\<open>raw_output\<close> and in
  the offset).
\<close>

theorem fenced_decodes_like_content_counterexample:
  \<open>safe_json (fenced (ustr ''json'') (ustr '' x'') None) \<noteq> safe_json (ustr '' x'')\<close>
  by (simp add: fenced_def safe_ev json_ev fix_ev str_ev split_def)

text \<open>
  Claim C5, amended. Take a content whose trimmed text does not begin with a fence
  marker and that has no line that is a bare marker once trimmed. If the content has
  no white space around it, or decodes strictly (a valid payload, padded or not), or
  is repaired (neither it nor its trimmed text decodes and the repair gives a candidate
  that does not fail to decode), then the de-fenced text of the wrapped content is the
  content itself and the decoder's result on the wrapped content is its result on the
  content alone, whatever commentary follows the closing marker.
\<close>

theorem fenced_decodes_like_content:
  assumes "NL \<notin> set tag"
    and "\<not> startswith (strip content) fence"
    and "\<forall>l \<in> set (split NL content). strip l \<noteq> fence"
    and "strip content = content \<or> (\<exists>v. json_loads content = Inr v) \<or>
      (\<exists>m d p m' d' p' f. json_loads content = Inl (JSONDecodeError m d p) \<and>
         json_loads (strip content) = Inl (JSONDecodeError m' d' p') \<and>
         try_fix_json content = Some f \<and> f \<noteq> [] \<and>
         (\<forall>m'' d'' p''. json_loads f \<noteq> Inl (JSONDecodeError m'' d'' p'')))"
  shows "strip_fence (fenced tag content commentary) = content \<and>
         safe_json (fenced tag content commentary) = safe_json content"
proof -
  have a: "strip_fence (fenced tag content commentary) = content"
    using assms(1,3) by (rule strip_fence_fenced)
  have b: "strip_fence content = strip content"
    using assms(2) by (simp add: strip_fence_def)
  have "decode_or_repair (strip content) = decode_or_repair content"
    using assms(4) by (rule decode_or_repair_strip)
  with a b show ?thesis by (simp add: safe_json_def)
qed

text \<open>
  A padded valid payload with a trailing commentary, and a padded truncated payload
  that is repaired.
\<close>

theorem fenced_decodes_like_content_witness:
  \<open>fenced (ustr ''json'') (ustr ''  {"a": 1}'') (Some (ustr ''Hope this helps!'')) =
     ustr ''```json\<newline>  {"a": 1}\<newline>```\<newline>Hope this helps!'' \<and>
   strip (ustr ''  {"a": 1}'') \<noteq> ustr ''  {"a": 1}'' \<and>
   safe_json (fenced (ustr ''json'') (ustr ''  {"a": 1}'') (Some (ustr ''Hope this helps!''))) =
     safe_json (ustr ''  {"a": 1}'') \<and>
   safe_json (ustr ''  {"a": 1}'') = Inr (JObject [(ustr ''a'', JInt 1)]) \<and>
   safe_json (fenced [] (ustr '' {"a": [1,'') None) = safe_json (ustr '' {"a": [1,'') \<and>
   safe_json (ustr '' {"a": [1,'') = Inr (JObject [(ustr ''a'', JArray [JInt 1])])\<close>
proof -
  have h1: \<open>NL \<notin> set (ustr ''json'')\<close> \<open>NL \<notin> set []\<close>
    by (simp_all add: str_ev)
  have h2: \<open>\<not> startswith (strip (ustr ''  {"a": 1}'')) fence\<close>
    \<open>\<not> startswith (strip (ustr '' {"a": [1,'')) fence\<close>
    by (simp_all add: str_ev)
  have h3: \<open>\<forall>l \<in> set (split NL (ustr ''  {"a": 1}'')). strip l \<noteq> fence\<close>
    \<open>\<forall>l \<in> set (split NL (ustr '' {"a": [1,'')). strip l \<noteq> fence\<close>
    by (simp_all add: str_ev)
  have v: \<open>json_loads (ustr ''  {"a": 1}'') = Inr (JObject [(ustr ''a'', JInt 1)])\<close>
    by (simp add: json_ev str_ev)
  then have h4: \<open>strip (ustr ''  {"a": 1}'') = ustr ''  {"a": 1}'' \<or>
      (\<exists>v. json_loads (ustr ''  {"a": 1}'') = Inr v) \<or>
      (\<exists>m d p m' d' p' f. json_loads (ustr ''  {"a": 1}'') = Inl (JSONDecodeError m d p) \<and>
         json_loads (strip (ustr ''  {"a": 1}'')) = Inl (JSONDecodeError m' d' p') \<and>
         try_fix_json (ustr ''  {"a": 1}'') = Some f \<and> f \<noteq> [] \<and>
         (\<forall>m'' d'' p''. json_loads f \<noteq> Inl (JSONDecodeError m'' d'' p'')))\<close>
    by blast
  have r1: \<open>json_loads (ustr '' {"a": [1,'') =
      Inl (JSONDecodeError (ustr ''Expecting value'') (ustr '' {"a": [1,'') 10)\<close>
    by (simp add: json_ev str_ev)
  have r2: \<open>json_loads (strip (ustr '' {"a": [1,'')) =
      Inl (JSONDecodeError (ustr ''Expecting value'') (ustr ''{"a": [1,'') 9)\<close>
    by (simp add: json_ev str_ev)
  have r3: \<open>try_fix_json (ustr '' {"a": [1,'') = Some (ustr ''{"a": [1]}'')\<close>
    by (simp add: fix_ev str_ev)
  have r4: \<open>json_loads (ustr ''{"a": [1]}'') = Inr (JObject [(ustr ''a'', JArray [JInt 1])])\<close>
    by (simp add: json_ev str_ev)
  have r5: \<open>ustr ''{"a": [1]}'' \<noteq> []\<close> by (simp add: ustr_def)
  from r4 have r6: \<open>\<forall>m'' d'' p''. json_loads (ustr ''{"a": [1]}'') \<noteq> Inl (JSONDecodeError m'' d'' p'')\<close>
    by simp
  from r1 r2 r3 r5 r6 have h4': \<open>strip (ustr '' {"a": [1,'') = ustr '' {"a": [1,'' \<or>
      (\<exists>v. json_loads (ustr '' {"a": [1,'') = Inr v) \<or>
      (\<exists>m d p m' d' p' f. json_loads (ustr '' {"a": [1,'') = Inl (JSONDecodeError m d p) \<and>
         json_loads (strip (ustr '' {"a": [1,'')) = Inl (JSONDecodeError m' d' p') \<and>
         try_fix_json (ustr '' {"a": [1,'') = Some f \<and> f \<noteq> [] \<and>
         (\<forall>m'' d'' p''. json_loads f \<noteq> Inl (JSONDecodeError m'' d'' p'')))\<close>
    by blast
  have h5: \<open>fenced (ustr ''json'') (ustr ''  {"a": 1}'') (Some (ustr ''Hope this helps!'')) =
     ustr ''```json\<newline>  {"a": 1}\<newline>```\<newline>Hope this helps!''\<close>
    by (simp add: fenced_def str_ev)
  have h6: \<open>strip (ustr ''  {"a": 1}'') \<noteq> ustr ''  {"a": 1}''\<close>
    by (simp add: str_ev)
  have h7: \<open>safe_json (ustr ''  {"a": 1}'') = Inr (JObject [(ustr ''a'', JInt 1)])\<close>
    by (simp add: safe_ev json_ev str_ev)
  have h8: \<open>safe_json (ustr '' {"a": [1,'') = Inr (JObject [(ustr ''a'', JArray [JInt 1])])\<close>
    by (simp add: safe_ev json_ev fix_ev str_ev)
  from fenced_decodes_like_content [OF h1(1) h2(1) h3(1) h4]
    fenced_decodes_like_content [OF h1(2) h2(2) h3(2) h4'] h5 h6 h7 h8
  show ?thesis by blast
qed

section \<open>Where the uncaught exceptions come from\<close>

lemma filter_suffix_le: "suffix x s \<Longrightarrow> length (filter P x) \<le> length (filter P s)"
  by (auto simp: suffix_def)

lemma suffix_skip_ws: "suffix (skip_ws s) s"
  unfolding skip_ws_def by (rule suffix_dropWhile)

lemma consumed_suffix: "\<exists>y c. s = y @ c # r \<and> \<not> isspace c \<Longrightarrow> suffix r s"
  by (metis suffix_def append.assoc append_Cons append_Nil)

lemma py_scanstring_suffix: "py_scanstring b ch s = Inr (k, r) \<Longrightarrow> suffix r s"
proof -
  assume a: "py_scanstring b ch s = Inr (k, r)"
  have "set [] \<subseteq> set WHITESPACE_STR" by simp
  from py_scanstring_trunc [OF this, of b ch s k r b] a
  obtain x where "s = x @ cp CHR 0x22 # r" by auto
  then show ?thesis by (metis suffix_def append.assoc append_Cons append_Nil)
qed

lemma scan_once_suffix: "scan_once n dp s = Inr (v, r) \<Longrightarrow> suffix r s"
proof -
  assume a: "scan_once n dp s = Inr (v, r)"
  have "set [] \<subseteq> set WHITESPACE_STR" by simp
  from scan_once_trunc [OF this, of s "Suc (length s)" n dp v r] a
  have "\<exists>y c. s = y @ c # r \<and> \<not> isspace c" by auto
  then show ?thesis by (rule consumed_suffix)
qed

lemma py_scanstring_other: "py_scanstring b ch s \<noteq> Inl RaiseValueError \<and> py_scanstring b ch s \<noteq> Inl RaiseRecursionError"
  by (induction b ch s rule: py_scanstring.induct)
     (simp_all add: Let_def split: option.split list.split)

lemma expecting_value_other:
  "e = RaiseValueError \<or> e = RaiseRecursionError \<Longrightarrow> expecting_value x = Inl e \<longleftrightarrow> x = Inl e"
  by (auto simp: expecting_value_def split: sum.splits scan_exn.splits)

lemma JSONArray_loop_origin:
  assumes suf: "\<And>x v r. sc x = Inr (v, r) \<Longrightarrow> suffix r x"
    and e: "e = RaiseValueError \<or> e = RaiseRecursionError"
  shows "JSONArray_loop sc k vals s = Inl e \<Longrightarrow> \<exists>x. suffix x s \<and> sc x = Inl e"
proof (induction k arbitrary: vals s)
  case 0
  with e show ?case by auto
next
  case (Suc k)
  show ?case
  proof (cases "expecting_value (sc s)")
    case (Inl e')
    with Suc.prems have "expecting_value (sc s) = Inl e" by simp
    then have "sc s = Inl e" by (simp add: expecting_value_other [OF e])
    then show ?thesis by blast
  next
    case (Inr q)
    obtain val s1 where q: "q = (val, s1)" by (cases q)
    with Inr have "sc s = Inr (val, s1)" by (simp add: expecting_value_Inr)
    then have s1: "suffix s1 s" by (rule suf)
    define s3 where "s3 = skip_ws (drop 1 (skip_ws s1))"
    have "suffix s3 (drop 1 (skip_ws s1))" unfolding s3_def by (rule suffix_skip_ws)
    also have "suffix (drop 1 (skip_ws s1)) (skip_ws s1)" by (rule suffix_drop)
    also have "suffix (skip_ws s1) s1" by (rule suffix_skip_ws)
    also note s1
    finally have s3: "suffix s3 s" .
    from Suc.prems Inr q e have "JSONArray_loop sc k (vals @ [val]) s3 = Inl e"
      by (auto simp: Let_def s3_def split: if_splits)
    from Suc.IH [OF this] obtain x where "suffix x s3" "sc x = Inl e" by blast
    with s3 show ?thesis by (meson suffix_order.trans)
  qed
qed

lemma JSONObject_loop_origin:
  assumes suf: "\<And>x v r. sc x = Inr (v, r) \<Longrightarrow> suffix r x"
    and e: "e = RaiseValueError \<or> e = RaiseRecursionError"
  shows "JSONObject_loop sc k pairs s = Inl e \<Longrightarrow> \<exists>x. suffix x s \<and> sc x = Inl e"
proof (induction k arbitrary: pairs s)
  case 0
  with e show ?case by auto
next
  case (Suc k)
  show ?case
  proof (cases "py_scanstring (Suc (length s)) [] s")
    case (Inl e')
    with Suc.prems have "py_scanstring (Suc (length s)) [] s = Inl e" by simp
    with e py_scanstring_other [of "Suc (length s)" "[]" s] show ?thesis by auto
  next
    case (Inr kq)
    obtain key s1 where kq: "kq = (key, s1)" by (cases kq)
    with Inr have s1: "suffix s1 s" by (auto dest: py_scanstring_suffix)
    define s3 where "s3 = skip_ws (drop 1 (skip_ws s1))"
    have "suffix s3 (drop 1 (skip_ws s1))" unfolding s3_def by (rule suffix_skip_ws)
    also have "suffix (drop 1 (skip_ws s1)) (skip_ws s1)" by (rule suffix_drop)
    also have "suffix (skip_ws s1) s1" by (rule suffix_skip_ws)
    also note s1
    finally have s3: "suffix s3 s" .
    from Suc.prems Inr kq e have colon: "take 1 (skip_ws s1) = ustr '':''"
      by (auto simp: Let_def split: if_splits)
    show ?thesis
    proof (cases "expecting_value (sc s3)")
      case (Inl e')
      with Suc.prems \<open>py_scanstring (Suc (length s)) [] s = Inr kq\<close> kq colon
      have "expecting_value (sc s3) = Inl e" by (simp add: Let_def s3_def)
      then have "sc s3 = Inl e" by (simp add: expecting_value_other [OF e])
      with s3 show ?thesis by blast
    next
      case (Inr q)
      obtain val s4 where q: "q = (val, s4)" by (cases q)
      with Inr have "sc s3 = Inr (val, s4)" by (simp add: expecting_value_Inr)
      then have "suffix s4 s3" by (rule suf)
      with s3 have s4: "suffix s4 s" by (meson suffix_order.trans)
      define s7 where "s7 = drop 1 (skip_ws (drop 1 (skip_ws s4)))"
      have "suffix s7 (skip_ws (drop 1 (skip_ws s4)))" unfolding s7_def by (rule suffix_drop)
      also have "suffix (skip_ws (drop 1 (skip_ws s4))) (drop 1 (skip_ws s4))" by (rule suffix_skip_ws)
      also have "suffix (drop 1 (skip_ws s4)) (skip_ws s4)" by (rule suffix_drop)
      also have "suffix (skip_ws s4) s4" by (rule suffix_skip_ws)
      also note s4
      finally have s7: "suffix s7 s" .
      from Suc.prems \<open>py_scanstring (Suc (length s)) [] s = Inr kq\<close> kq colon Inr q e
      have "JSONObject_loop sc k (pairs @ [(key, val)]) s7 = Inl e"
        by (auto simp: Let_def s3_def s7_def split: if_splits)
      from Suc.IH [OF this] obtain x where "suffix x s7" "sc x = Inl e" by blast
      with s7 show ?thesis by (meson suffix_order.trans)
    qed
  qed
qed

lemma JSONObject_origin:
  assumes suf: "\<And>x v r. sc x = Inr (v, r) \<Longrightarrow> suffix r x"
    and e: "e = RaiseValueError \<or> e = RaiseRecursionError"
    and run: "JSONObject sc k s = Inl e"
  shows "\<exists>x. suffix x s \<and> sc x = Inl e"
proof -
  from run e have l: "JSONObject_loop sc k [] (drop 1 (skip_ws s)) = Inl e"
    by (auto simp: JSONObject_def Let_def split: if_splits)
  have "\<exists>x. suffix x (drop 1 (skip_ws s)) \<and> sc x = Inl e"
  proof (rule JSONObject_loop_origin [OF _ e l])
    fix x v r assume "sc x = Inr (v, r)" then show "suffix r x" by (rule suf)
  qed
  then obtain x where "suffix x (drop 1 (skip_ws s))" "sc x = Inl e" by blast
  moreover have "suffix (drop 1 (skip_ws s)) s"
    by (meson suffix_drop suffix_skip_ws suffix_order.trans)
  ultimately show ?thesis by (meson suffix_order.trans)
qed

lemma JSONArray_origin:
  assumes suf: "\<And>x v r. sc x = Inr (v, r) \<Longrightarrow> suffix r x"
    and e: "e = RaiseValueError \<or> e = RaiseRecursionError"
    and run: "JSONArray sc k s = Inl e"
  shows "\<exists>x. suffix x s \<and> sc x = Inl e"
proof -
  from run e have l: "JSONArray_loop sc k [] (skip_ws s) = Inl e"
    by (auto simp: JSONArray_def Let_def split: if_splits)
  have "\<exists>x. suffix x (skip_ws s) \<and> sc x = Inl e"
  proof (rule JSONArray_loop_origin [OF _ e l])
    fix x v r assume "sc x = Inr (v, r)" then show "suffix r x" by (rule suf)
  qed
  then obtain x where "suffix x (skip_ws s)" "sc x = Inl e" by blast
  with suffix_skip_ws [of s] show ?thesis by (meson suffix_order.trans)
qed

lemma match_number_int:
  assumes "match_number s = Some (i, f, e, r)"
  shows "suffix (if take 1 i = ustr ''-'' then drop 1 i else i) i \<and> prefix i s \<and>
         (\<forall>c\<in>set (if take 1 i = ustr ''-'' then drop 1 i else i). isdigit c)"
proof -
  define sign where "sign = (if take 1 s = ustr ''-'' then ustr ''-'' else [])"
  define s1 where "s1 = drop (length sign) s"
  have sp: "s = sign @ s1" by (cases s) (auto simp: sign_def s1_def ustr_def)
  note m = assms [unfolded match_number_def Let_def sign_def [symmetric] s1_def [symmetric]]
  from m obtain d s2 where s1c: "s1 = d # s2" by (cases s1) auto
  have dd: "isdigit d"
  proof (rule ccontr)
    assume "\<not> isdigit d"
    with m s1c show False by simp
  qed
  define digits where "digits = (if d = cp CHR ''0'' then [] else takeWhile isdigit s2)"
  from m s1c dd have i: "i = sign @ d # digits" by (simp add: digits_def)
  have ds: "\<forall>c\<in>set (d # digits). isdigit c"
    using dd by (auto simp: digits_def dest: set_takeWhileD)
  have "prefix digits s2" by (simp add: digits_def takeWhile_is_prefix)
  then have p: "prefix i s" unfolding i sp s1c by simp
  have nd: "d \<noteq> cp CHR ''-''" using dd by (auto simp: isdigit_def cp_def)
  have "(if take 1 i = ustr ''-'' then drop 1 i else i) = d # digits"
    unfolding i using nd by (auto simp: sign_def ustr_def)
  moreover have "suffix (d # digits) i" unfolding i by (simp add: suffix_def)
  ultimately show ?thesis using p ds by simp
qed

lemma scan_constant_ValueError:
  assumes "scan_constant s = Inl RaiseValueError"
  shows "int_max_str_digits < length (filter isdigit s)"
proof (cases "match_number s")
  case None
  with assms show ?thesis by (auto simp: scan_constant_def Let_def split: if_splits)
next
  case (Some q)
  obtain i f e r where q: "q = (i, f, e, r)" by (cases q)
  define digits where "digits = (if take 1 i = ustr ''-'' then drop 1 i else i)"
  from assms Some q have "parse_int i = Inl RaiseValueError"
    by (auto simp: scan_constant_def Let_def split: if_splits sum.splits)
  then have "int_max_str_digits < length digits"
    by (auto simp: parse_int_def Let_def digits_def split: if_splits)
  moreover from match_number_int [of s i f e r] Some q
  have "suffix digits i" "prefix i s" "\<forall>c\<in>set digits. isdigit c"
    by (simp_all add: digits_def)
  then have d: "suffix digits i" "prefix i s" "\<forall>c\<in>set digits. isdigit c" .
  from d(3) have "filter isdigit digits = digits" by (simp add: filter_id_conv)
  then have "length digits = length (filter isdigit digits)" by simp
  moreover from d(1) have "length (filter isdigit digits) \<le> length (filter isdigit i)"
    by (rule filter_suffix_le)
  moreover from d(2) have "length (filter isdigit i) \<le> length (filter isdigit s)"
    by (auto simp: prefix_def)
  ultimately show ?thesis by simp
qed

lemma scan_constant_no_RecursionError: "scan_constant s \<noteq> Inl RaiseRecursionError"
  by (auto simp: scan_constant_def parse_int_def Let_def split: option.split prod.split sum.split)

lemma parse_string_other:
  "parse_string s \<noteq> Inl RaiseValueError \<and> parse_string s \<noteq> Inl RaiseRecursionError"
  using py_scanstring_other [of "length s" "[]" "drop 1 s"]
  by (auto simp: parse_string_def split: sum.splits prod.splits)

lemma scan_once_unfold:
  "scan_once (Suc n) dp s =
     (if s = [] then Inl (StopIteration 0)
      else if take 1 s = [cp CHR 0x22] then parse_string s
      else if take 1 s = ustr ''{'' then
        (if dp = 0 then Inl RaiseRecursionError
         else JSONObject (\<lambda>s. scan_once n (dp - 1) s) n (drop 1 s))
      else if take 1 s = ustr ''['' then
        (if dp = 0 then Inl RaiseRecursionError
         else JSONArray (\<lambda>s. scan_once n (dp - 1) s) n (drop 1 s))
      else scan_constant s)"
  by simp

lemma scan_once_ValueError:
  "scan_once n dp s = Inl RaiseValueError \<Longrightarrow> int_max_str_digits < length (filter isdigit s)"
proof (induction n arbitrary: s dp)
  case 0
  then show ?case by simp
next
  case (Suc n)
  note run = Suc.prems [unfolded scan_once_unfold]
  have suf: "\<And>x v r. scan_once n (dp - 1) x = Inr (v, r) \<Longrightarrow> suffix r x"
    by (rule scan_once_suffix)
  have inner: "int_max_str_digits < length (filter isdigit s)"
    if "suffix x (drop 1 s)" "scan_once n (dp - 1) x = Inl RaiseValueError" for x
  proof -
    from that(1) have "suffix x s" by (meson suffix_drop suffix_order.trans)
    then have "length (filter isdigit x) \<le> length (filter isdigit s)" by (rule filter_suffix_le)
    with Suc.IH [OF that(2)] show ?thesis by simp
  qed
  consider (str) "parse_string s = Inl RaiseValueError"
    | (obj) "JSONObject (\<lambda>s. scan_once n (dp - 1) s) n (drop 1 s) = Inl RaiseValueError"
    | (arr) "JSONArray (\<lambda>s. scan_once n (dp - 1) s) n (drop 1 s) = Inl RaiseValueError"
    | (const) "scan_constant s = Inl RaiseValueError"
    using run by (auto split: if_splits)
  then show ?case
  proof cases
    case str
    with parse_string_other show ?thesis by blast
  next
    case obj
    have "\<exists>x. suffix x (drop 1 s) \<and> scan_once n (dp - 1) x = Inl RaiseValueError"
      by (rule JSONObject_origin [OF suf _ obj]) simp_all
    with inner show ?thesis by blast
  next
    case arr
    have "\<exists>x. suffix x (drop 1 s) \<and> scan_once n (dp - 1) x = Inl RaiseValueError"
      by (rule JSONArray_origin [OF suf _ arr]) simp_all
    with inner show ?thesis by blast
  next
    case const
    then show ?thesis by (rule scan_constant_ValueError)
  qed
qed

lemma scan_once_RecursionError:
  "scan_once n dp s = Inl RaiseRecursionError \<Longrightarrow>
   dp < length (filter (\<lambda>c. c = cp CHR ''['' \<or> c = cp CHR ''{'') s)"
proof (induction n arbitrary: s dp)
  case 0
  then show ?case by simp
next
  case (Suc n)
  let ?o = "\<lambda>c. c = cp CHR ''['' \<or> c = cp CHR ''{''"
  note run = Suc.prems [unfolded scan_once_unfold]
  have suf: "\<And>x v r. scan_once n (dp - 1) x = Inr (v, r) \<Longrightarrow> suffix r x"
    by (rule scan_once_suffix)
  have opened: "length (filter ?o s) = Suc (length (filter ?o (drop 1 s)))"
    if "take 1 s = ustr ''{'' \<or> take 1 s = ustr ''[''"
    using that by (cases s) (auto simp: ustr_def)
  have inner: "dp < length (filter ?o s)"
    if "suffix x (drop 1 s)" "scan_once n (dp - 1) x = Inl RaiseRecursionError"
      "take 1 s = ustr ''{'' \<or> take 1 s = ustr ''[''" for x
  proof -
    from that(1) have "length (filter ?o x) \<le> length (filter ?o (drop 1 s))"
      by (rule filter_suffix_le)
    with Suc.IH [OF that(2)] opened [OF that(3)] show ?thesis by simp
  qed
  consider (str) "parse_string s = Inl RaiseRecursionError"
    | (zero) "dp = 0" "take 1 s = ustr ''{'' \<or> take 1 s = ustr ''[''"
    | (obj) "take 1 s = ustr ''{''"
        "JSONObject (\<lambda>s. scan_once n (dp - 1) s) n (drop 1 s) = Inl RaiseRecursionError"
    | (arr) "take 1 s = ustr ''[''"
        "JSONArray (\<lambda>s. scan_once n (dp - 1) s) n (drop 1 s) = Inl RaiseRecursionError"
    | (const) "scan_constant s = Inl RaiseRecursionError"
    using run by (auto split: if_splits)
  then show ?case
  proof cases
    case str
    with parse_string_other show ?thesis by blast
  next
    case zero
    with opened show ?thesis by simp
  next
    case obj
    have "\<exists>x. suffix x (drop 1 s) \<and> scan_once n (dp - 1) x = Inl RaiseRecursionError"
      by (rule JSONObject_origin [OF suf _ obj(2)]) simp_all
    with inner obj(1) show ?thesis by blast
  next
    case arr
    have "\<exists>x. suffix x (drop 1 s) \<and> scan_once n (dp - 1) x = Inl RaiseRecursionError"
      by (rule JSONArray_origin [OF suf _ arr(2)]) simp_all
    with inner arr(1) show ?thesis by blast
  next
    case const
    with scan_constant_no_RecursionError show ?thesis by blast
  qed
qed

lemma decode_other:
  "decode t = Inl ValueError \<longleftrightarrow> raw_decode (skip_ws t) = Inl RaiseValueError"
  "decode t = Inl RecursionError \<longleftrightarrow> raw_decode (skip_ws t) = Inl RaiseRecursionError"
proof -
  show "decode t = Inl ValueError \<longleftrightarrow> raw_decode (skip_ws t) = Inl RaiseValueError"
  proof (cases "raw_decode (skip_ws t)")
    case (Inl e)
    then show ?thesis by (cases e) (simp_all add: decode_def)
  next
    case (Inr p)
    obtain obj rest where "p = (obj, rest)" by (cases p)
    with Inr show ?thesis by (auto simp: decode_def)
  qed
  show "decode t = Inl RecursionError \<longleftrightarrow> raw_decode (skip_ws t) = Inl RaiseRecursionError"
  proof (cases "raw_decode (skip_ws t)")
    case (Inl e)
    then show ?thesis by (cases e) (simp_all add: decode_def)
  next
    case (Inr p)
    obtain obj rest where "p = (obj, rest)" by (cases p)
    with Inr show ?thesis by (auto simp: decode_def)
  qed
qed

lemma expecting_value_other':
  "expecting_value x = Inl RaiseValueError \<longleftrightarrow> x = Inl RaiseValueError"
  "expecting_value x = Inl RaiseRecursionError \<longleftrightarrow> x = Inl RaiseRecursionError"
  by (simp_all add: expecting_value_other)

lemma json_loads_ValueError:
  assumes "json_loads t = Inl ValueError"
  shows "int_max_str_digits < length (filter isdigit t)"
proof -
  from assms have "decode t = Inl ValueError" by (auto simp: json_loads_def split: if_splits)
  then have "scan_once (Suc (length (skip_ws t))) recursion_headroom (skip_ws t) = Inl RaiseValueError"
    by (simp add: decode_other raw_decode_def expecting_value_other')
  then have "int_max_str_digits < length (filter isdigit (skip_ws t))" by (rule scan_once_ValueError)
  moreover have "length (filter isdigit (skip_ws t)) \<le> length (filter isdigit t)"
    by (rule filter_suffix_le) (rule suffix_skip_ws)
  ultimately show ?thesis by simp
qed

lemma json_loads_RecursionError:
  assumes "json_loads t = Inl RecursionError"
  shows "recursion_headroom < length (filter (\<lambda>c. c = cp CHR ''['' \<or> c = cp CHR ''{'') t)"
proof -
  let ?o = "\<lambda>c. c = cp CHR ''['' \<or> c = cp CHR ''{''"
  from assms have "decode t = Inl RecursionError" by (auto simp: json_loads_def split: if_splits)
  then have "scan_once (Suc (length (skip_ws t))) recursion_headroom (skip_ws t) = Inl RaiseRecursionError"
    by (simp add: decode_other raw_decode_def expecting_value_other')
  then have "recursion_headroom < length (filter ?o (skip_ws t))" by (rule scan_once_RecursionError)
  moreover have "length (filter ?o (skip_ws t)) \<le> length (filter ?o t)"
    by (rule filter_suffix_le) (rule suffix_skip_ws)
  ultimately show ?thesis by simp
qed

lemma filter_dropWhile_le: "length (filter P (dropWhile Q s)) \<le> length (filter P s)"
  by (rule filter_suffix_le) (rule suffix_dropWhile)

lemma filter_rev_dropWhile_le: "length (filter P (rev (dropWhile Q (rev s)))) \<le> length (filter P s)"
proof -
  have "length (filter P (rev (dropWhile Q (rev s)))) = length (filter P (dropWhile Q (rev s)))"
    by (simp add: rev_filter [symmetric])
  also have "\<dots> \<le> length (filter P (rev s))" by (rule filter_dropWhile_le)
  also have "\<dots> = length (filter P s)" by (simp add: rev_filter [symmetric])
  finally show ?thesis .
qed

lemma filter_strip_le: "length (filter P (strip s)) \<le> length (filter P s)"
proof -
  have "length (filter P (strip s)) \<le> length (filter P (lstrip s))"
    unfolding strip_def rstrip_def by (rule filter_rev_dropWhile_le)
  also have "\<dots> \<le> length (filter P s)" unfolding lstrip_def by (rule filter_dropWhile_le)
  finally show ?thesis .
qed

lemma filter_join:
  "\<not> P sep \<Longrightarrow> length (filter P (join sep ls)) = sum_list (map (\<lambda>l. length (filter P l)) ls)"
  by (induction sep ls rule: join.induct) simp_all

lemma filter_split:
  "\<not> P sep \<Longrightarrow> sum_list (map (\<lambda>l. length (filter P l)) (split sep s)) = length (filter P s)"
  using filter_join [of P sep "split sep s"] by (simp add: join_split)

lemma filter_fence_loop:
  "sum_list (map (\<lambda>l. length (filter P l)) (fence_loop b acc ls)) \<le>
   sum_list (map (\<lambda>l. length (filter P l)) acc) + sum_list (map (\<lambda>l. length (filter P l)) ls)"
proof (induction ls arbitrary: b acc)
  case Nil
  then show ?case by simp
next
  case (Cons l ls)
  have 1: "sum_list (map (\<lambda>l. length (filter P l)) (fence_loop True acc ls)) \<le>
      sum_list (map (\<lambda>l. length (filter P l)) acc) + sum_list (map (\<lambda>l. length (filter P l)) ls)"
    by (rule Cons.IH)
  have 2: "sum_list (map (\<lambda>l. length (filter P l)) (fence_loop b acc ls)) \<le>
      sum_list (map (\<lambda>l. length (filter P l)) acc) + sum_list (map (\<lambda>l. length (filter P l)) ls)"
    by (rule Cons.IH)
  have 3: "sum_list (map (\<lambda>l. length (filter P l)) (fence_loop b (acc @ [l]) ls)) \<le>
      sum_list (map (\<lambda>l. length (filter P l)) (acc @ [l])) + sum_list (map (\<lambda>l. length (filter P l)) ls)"
    by (rule Cons.IH)
  from 1 2 3 show ?case by (auto simp: Let_def)
qed

lemma filter_strip_fence_le:
  assumes "\<not> P NL"
  shows "length (filter P (strip_fence raw)) \<le> length (filter P raw)"
proof (cases "startswith (strip raw) fence")
  case False
  then show ?thesis by (simp add: strip_fence_def filter_strip_le)
next
  case True
  then have "length (filter P (strip_fence raw)) =
      sum_list (map (\<lambda>l. length (filter P l)) (fence_loop False [] (split NL (strip raw))))"
    using assms by (simp add: strip_fence_def filter_join [of P NL])
  also have "\<dots> \<le> sum_list (map (\<lambda>l. length (filter P l)) (split NL (strip raw)))"
    using filter_fence_loop [of P False "[]" "split NL (strip raw)"] by simp
  also have "\<dots> = length (filter P (strip raw))" using assms by (rule filter_split [of P NL])
  also have "\<dots> \<le> length (filter P raw)" by (rule filter_strip_le)
  finally show ?thesis .
qed

lemma filter_try_fix_json_le:
  assumes "try_fix_json t = Some f" "\<not> P (cp CHR '']'')" "\<not> P (cp CHR ''}'')"
  shows "length (filter P f) \<le> length (filter P t)"
proof -
  define u where "u = (if in_string (scan (strip t)) \<and> 0 < last_good_pos (scan (strip t))
                 then take (last_good_pos (scan (strip t))) (strip t) else strip t)"
  from assms(1) have "unbalanced t" using try_fix_json_None_iff [of t] by auto
  from try_fix_json_unbalanced [OF this u_def] assms(1)
  have f: "f = rstrip_char (cp CHR '','') u
       @ replicate (count_list u (cp CHR ''['') - count_list u (cp CHR '']'')) (cp CHR '']'')
       @ replicate (count_list u (cp CHR ''{'') - count_list u (cp CHR ''}'')) (cp CHR ''}'')"
    by simp
  have "length (filter P f) = length (filter P (rstrip_char (cp CHR '','') u))"
    unfolding f using assms(2,3) by simp
  also have "\<dots> \<le> length (filter P u)"
    unfolding rstrip_char_def by (rule filter_rev_dropWhile_le)
  also have "\<dots> \<le> length (filter P (strip t))"
  proof -
    have "prefix u (strip t)" by (simp add: u_def take_is_prefix)
    then show ?thesis by (auto simp: prefix_def)
  qed
  also have "\<dots> \<le> length (filter P t)" by (rule filter_strip_le)
  finally show ?thesis .
qed

lemma decode_or_repair_raises:
  assumes "decode_or_repair t = Inl e"
  shows "json_loads t = Inl e \<or>
     (\<exists>m d p f. json_loads t = Inl (JSONDecodeError m d p) \<and> try_fix_json t = Some f \<and> f \<noteq> [] \<and>
        json_loads f = Inl e)"
proof (cases t rule: json_loads_cases)
  case (failed m d p)
  show ?thesis
  proof (cases "try_fix_json t")
    case None
    with failed assms show ?thesis by (simp add: decode_or_repair_def)
  next
    case (Some f)
    show ?thesis
    proof (cases "f = []")
      case True
      with failed Some assms show ?thesis by (simp add: decode_or_repair_def)
    next
      case False
      with failed Some assms show ?thesis
        by (cases f rule: json_loads_cases) (simp_all add: decode_or_repair_def)
    qed
  qed
qed (use assms in \<open>simp_all add: decode_or_repair_def\<close>)

lemma decode_or_repair_within_limits:
  assumes d: "length (filter isdigit t) \<le> int_max_str_digits"
    and o: "length (filter (\<lambda>c. c = cp CHR ''['' \<or> c = cp CHR ''{'') t) \<le> recursion_headroom"
  shows "\<exists>v. decode_or_repair t = Inr v"
proof (rule ccontr)
  let ?o = "\<lambda>c. c = cp CHR ''['' \<or> c = cp CHR ''{''"
  assume "\<not> (\<exists>v. decode_or_repair t = Inr v)"
  with decode_or_repair_returns [of t] obtain e where r: "decode_or_repair t = Inl e"
    and e: "e = ValueError \<or> e = RecursionError"
    by blast
  from decode_or_repair_raises [OF r] obtain x where x: "json_loads x = Inl e"
    and xd: "length (filter isdigit x) \<le> length (filter isdigit t)"
    and xo: "length (filter ?o x) \<le> length (filter ?o t)"
  proof
    assume "json_loads t = Inl e"
    then show ?thesis using that [of t] by simp
  next
    assume "\<exists>m d p f. json_loads t = Inl (JSONDecodeError m d p) \<and> try_fix_json t = Some f \<and> f \<noteq> [] \<and>
        json_loads f = Inl e"
    then obtain f where f: "try_fix_json t = Some f" "json_loads f = Inl e" by blast
    have "length (filter isdigit f) \<le> length (filter isdigit t)"
      by (rule filter_try_fix_json_le [OF f(1)]) (simp_all add: isdigit_def cp_def)
    moreover have "length (filter ?o f) \<le> length (filter ?o t)"
      by (rule filter_try_fix_json_le [OF f(1)]) (simp_all add: cp_def)
    ultimately show ?thesis using that [of f] f(2) by simp
  qed
  from e show False
  proof
    assume "e = ValueError"
    with x have "int_max_str_digits < length (filter isdigit x)" by (intro json_loads_ValueError) simp
    with xd d show False by simp
  next
    assume "e = RecursionError"
    with x have "recursion_headroom < length (filter ?o x)" by (intro json_loads_RecursionError) simp
    with xo o show False by simp
  qed
qed

lemma safe_json_within_limits:
  assumes d: "length (filter isdigit raw) \<le> int_max_str_digits"
    and o: "length (filter (\<lambda>c. c = cp CHR ''['' \<or> c = cp CHR ''{'') raw) \<le> recursion_headroom"
  shows "\<exists>v. safe_json raw = Inr v"
  unfolding safe_json_def
proof (rule decode_or_repair_within_limits)
  have "length (filter isdigit (strip_fence raw)) \<le> length (filter isdigit raw)"
    by (rule filter_strip_fence_le) (simp add: isdigit_def cp_def NL_def)
  with d show "length (filter isdigit (strip_fence raw)) \<le> int_max_str_digits" by simp
  have "length (filter (\<lambda>c. c = cp CHR ''['' \<or> c = cp CHR ''{'') (strip_fence raw)) \<le>
      length (filter (\<lambda>c. c = cp CHR ''['' \<or> c = cp CHR ''{'') raw)"
    by (rule filter_strip_fence_le) (simp add: cp_def NL_def)
  with o show "length (filter (\<lambda>c. c = cp CHR ''['' \<or> c = cp CHR ''{'') (strip_fence raw)) \<le>
      recursion_headroom" by simp
qed

section \<open>What leaves the decoder\<close>

lemma long_integer_raises:
  assumes n: "int_max_str_digits \<le> n"
  shows "json_loads (replicate (Suc n) (cp CHR ''1'')) = Inl ValueError"
    and "safe_json (replicate (Suc n) (cp CHR ''1'')) = Inl ValueError"
    and "strip_fence (replicate (Suc n) (cp CHR ''1'')) = replicate (Suc n) (cp CHR ''1'')"
proof -
  let ?s = "replicate (Suc n) (cp CHR ''1'')"
  have m: "match_number ?s = Some (?s, [], [], [])"
    by (simp add: match_number_def Let_def isdigit_def cp_def ustr_def)
  have p: "parse_int ?s = Inl RaiseValueError"
    using n by (simp add: parse_int_def Let_def cp_def ustr_def)
  have c: "scan_constant ?s = Inl RaiseValueError"
    unfolding scan_constant_def Let_def m using p by (simp add: cp_def ustr_def)
  have "scan_once (Suc (length ?s)) recursion_headroom ?s = Inl RaiseValueError"
    using c by (simp add: cp_def ustr_def)
  moreover have "skip_ws ?s = ?s" by (simp add: skip_ws_def WHITESPACE_STR_def cp_def)
  ultimately show l: "json_loads ?s = Inl ValueError"
    by (simp add: json_loads_def decode_def raw_decode_def expecting_value_def cp_def)
  have "dropWhile isspace ?s = ?s" by (simp add: isspace_def cp_def)
  then have "strip ?s = ?s" by (simp only: strip_def lstrip_def rstrip_def rev_replicate)
  then show sf: "strip_fence ?s = ?s"
    by (simp add: strip_fence_def startswith_def fence_def ustr_def cp_def)
  with l show "safe_json ?s = Inl ValueError"
    by (simp add: safe_json_def decode_or_repair_def)
qed

text \<open>
  Claim C4, as stated, fails: \<^verbatim>\<open>json.loads\<close> raises \<^verbatim>\<open>ValueError\<close> on an integer
  of 4301 digits, which is not a \<^verbatim>\<open>JSONDecodeError\<close>, and \<^verbatim>\<open>_safe_json\<close> lets it
  through.
\<close>

theorem safe_json_raises_ValueError:
  "safe_json (replicate 4301 (cp CHR ''1'')) = Inl ValueError"
proof -
  have "safe_json (replicate (Suc 4300) (cp CHR ''1'')) = Inl ValueError"
    by (rule long_integer_raises) (simp add: int_max_str_digits_def)
  then show ?thesis by simp
qed

text \<open>
  Claim C4, amended. The decoder catches every \<^verbatim>\<open>JSONDecodeError\<close>: for every input
  it returns a value, unless \<^verbatim>\<open>json.loads\<close> raises \<^verbatim>\<open>ValueError\<close> (an integer of
  more than 4300 digits) or \<^verbatim>\<open>RecursionError\<close> (nesting beyond the interpreter's
  limit), the two exceptions that \<^verbatim>\<open>_safe_json\<close> does not catch. An exception that
  leaves the decoder is the one \<^verbatim>\<open>json.loads\<close> raised on the de-fenced text or on the
  repair candidate. In particular the decoder returns a value for every input that has
  at most 4300 digit characters and at most as many opening brackets and braces as
  arrays and objects may be nested. When strict decoding fails and the repair gives no
  candidate or one that fails to decode, the value is the mapping with
  \<^verbatim>\<open>raw_output\<close> the de-fenced text, \<^verbatim>\<open>parse_error\<close> the text of the original decode
  error and \<^verbatim>\<open>error_position\<close> its offset, a number within the text. The empty input
  is such a case.
\<close>

theorem safe_json_catches_decode_errors:
  \<open>((\<exists>v. safe_json raw = Inr v) \<or> safe_json raw = Inl ValueError \<or>
    safe_json raw = Inl RecursionError) \<and>
   (safe_json raw = Inl e \<longrightarrow>
      json_loads (strip_fence raw) = Inl e \<or>
      (\<exists>m d p f. json_loads (strip_fence raw) = Inl (JSONDecodeError m d p) \<and>
         try_fix_json (strip_fence raw) = Some f \<and> f \<noteq> [] \<and> json_loads f = Inl e)) \<and>
   (length (filter isdigit raw) \<le> int_max_str_digits \<and>
    length (filter (\<lambda>c. c = cp CHR ''['' \<or> c = cp CHR ''{'') raw) \<le> recursion_headroom \<longrightarrow>
      (\<exists>v. safe_json raw = Inr v)) \<and>
   (json_loads (strip_fence raw) = Inl (JSONDecodeError m d p) \<and>
    (\<forall>f. try_fix_json (strip_fence raw) = Some f \<longrightarrow>
       (\<exists>m' d' p'. json_loads f = Inl (JSONDecodeError m' d' p'))) \<longrightarrow>
      safe_json raw =
        Inr (JObject [(ustr ''raw_output'', JString (strip_fence raw)),
                      (ustr ''parse_error'', JString (errmsg m (strip_fence raw) p)),
                      (ustr ''error_position'', JInt (int p))]) \<and>
      p \<le> length (strip_fence raw)) \<and>
   safe_json [] =
     Inr (JObject [(ustr ''raw_output'', JString []),
                   (ustr ''parse_error'', JString (ustr ''Expecting value: line 1 column 1 (char 0)'')),
                   (ustr ''error_position'', JInt 0)])\<close>
proof -
  have a: "(\<exists>v. safe_json raw = Inr v) \<or> safe_json raw = Inl ValueError \<or>
      safe_json raw = Inl RecursionError"
    unfolding safe_json_def by (rule decode_or_repair_returns)
  have b: "safe_json raw =
        Inr (JObject [(ustr ''raw_output'', JString (strip_fence raw)),
                      (ustr ''parse_error'', JString (errmsg m (strip_fence raw) p)),
                      (ustr ''error_position'', JInt (int p))]) \<and>
      p \<le> length (strip_fence raw)"
    if e: "json_loads (strip_fence raw) = Inl (JSONDecodeError m d p)"
      and r: "\<forall>f. try_fix_json (strip_fence raw) = Some f \<longrightarrow>
                (\<exists>m' d' p'. json_loads f = Inl (JSONDecodeError m' d' p'))"
  proof -
    from json_loads_doc [OF e] have d: "d = strip_fence raw" and p: "p \<le> length (strip_fence raw)"
      by simp_all
    have "decode_or_repair (strip_fence raw) = Inr (diagnostic (strip_fence raw) m d p)"
    proof (cases "try_fix_json (strip_fence raw)")
      case None
      with e show ?thesis by (simp add: decode_or_repair_def)
    next
      case (Some f)
      with r obtain m' d' p' where "json_loads f = Inl (JSONDecodeError m' d' p')" by blast
      with e Some show ?thesis by (simp add: decode_or_repair_def)
    qed
    with d p show ?thesis by (simp add: safe_json_def diagnostic_def)
  qed
  have c: \<open>safe_json [] =
     Inr (JObject [(ustr ''raw_output'', JString []),
                   (ustr ''parse_error'', JString (ustr ''Expecting value: line 1 column 1 (char 0)'')),
                   (ustr ''error_position'', JInt 0)])\<close>
    by (simp add: safe_ev json_ev fix_ev str_ev)
  have r: "safe_json raw = Inl e \<longrightarrow>
      json_loads (strip_fence raw) = Inl e \<or>
      (\<exists>m d p f. json_loads (strip_fence raw) = Inl (JSONDecodeError m d p) \<and>
         try_fix_json (strip_fence raw) = Some f \<and> f \<noteq> [] \<and> json_loads f = Inl e)"
    unfolding safe_json_def using decode_or_repair_raises [of "strip_fence raw" e] by blast
  have l: "length (filter isdigit raw) \<le> int_max_str_digits \<and>
    length (filter (\<lambda>c. c = cp CHR ''['' \<or> c = cp CHR ''{'') raw) \<le> recursion_headroom \<longrightarrow>
      (\<exists>v. safe_json raw = Inr v)"
    using safe_json_within_limits [of raw] by blast
  from a r l b c show ?thesis by blast
qed

theorem safe_json_catches_decode_errors_witness:
  \<open>length (filter isdigit (ustr ''{"a": ,'')) \<le> int_max_str_digits \<and>
   length (filter (\<lambda>c. c = cp CHR ''['' \<or> c = cp CHR ''{'') (ustr ''{"a": ,'')) \<le> recursion_headroom \<and>
   safe_json (replicate 4301 (cp CHR ''1'')) = Inl ValueError \<and>
   json_loads (strip_fence (replicate 4301 (cp CHR ''1''))) = Inl ValueError \<and>
   json_loads (strip_fence (ustr ''{"a": ,'')) =
     Inl (JSONDecodeError (ustr ''Expecting value'') (ustr ''{"a": ,'') 6) \<and>
   try_fix_json (strip_fence (ustr ''{"a": ,'')) = Some (ustr ''{"a": }'') \<and>
   json_loads (ustr ''{"a": }'') =
     Inl (JSONDecodeError (ustr ''Expecting value'') (ustr ''{"a": }'') 6) \<and>
   safe_json (ustr ''{"a": ,'') =
     Inr (JObject [(ustr ''raw_output'', JString (ustr ''{"a": ,'')),
                   (ustr ''parse_error'', JString (ustr ''Expecting value: line 1 column 7 (char 6)'')),
                   (ustr ''error_position'', JInt 6)])\<close>
proof -
  have sf: \<open>strip_fence (ustr ''{"a": ,'') = ustr ''{"a": ,''\<close>
    by (simp add: strip_fence_def str_ev)
  have h1: \<open>json_loads (ustr ''{"a": ,'') =
     Inl (JSONDecodeError (ustr ''Expecting value'') (ustr ''{"a": ,'') 6)\<close>
    by (simp add: json_ev str_ev)
  have h2: \<open>try_fix_json (ustr ''{"a": ,'') = Some (ustr ''{"a": }'')\<close>
    by (simp add: fix_ev str_ev)
  have h3: \<open>json_loads (ustr ''{"a": }'') =
     Inl (JSONDecodeError (ustr ''Expecting value'') (ustr ''{"a": }'') 6)\<close>
    by (simp add: json_ev str_ev)
  have h4: \<open>\<forall>f. try_fix_json (strip_fence (ustr ''{"a": ,'')) = Some f \<longrightarrow>
      (\<exists>m' d' p'. json_loads f = Inl (JSONDecodeError m' d' p'))\<close>
    using h2 h3 by (simp add: sf)
  have h5: \<open>errmsg (ustr ''Expecting value'') (ustr ''{"a": ,'') 6 =
      ustr ''Expecting value: line 1 column 7 (char 6)''\<close>
    by (simp add: errmsg_def str_ev)
  have h6: \<open>length (filter isdigit (ustr ''{"a": ,'')) \<le> int_max_str_digits\<close>
    \<open>length (filter (\<lambda>c. c = cp CHR ''['' \<or> c = cp CHR ''{'') (ustr ''{"a": ,'')) \<le> recursion_headroom\<close>
    by (simp_all add: str_ev isdigit_def int_max_str_digits_def recursion_headroom_def)
  have lim: "int_max_str_digits \<le> 4300" by (simp add: int_max_str_digits_def)
  have n: "replicate 4301 (cp CHR ''1'') = replicate (Suc 4300) (cp CHR ''1'')" by simp
  have h7: "safe_json (replicate 4301 (cp CHR ''1'')) = Inl ValueError"
    unfolding n using lim by (rule long_integer_raises(2))
  have h10: "json_loads (strip_fence (replicate 4301 (cp CHR ''1''))) = Inl ValueError"
    unfolding n long_integer_raises(3) [OF lim] using lim by (rule long_integer_raises(1))
  have main: \<open>json_loads (strip_fence (ustr ''{"a": ,'')) =
     Inl (JSONDecodeError (ustr ''Expecting value'') (ustr ''{"a": ,'') 6) \<and>
   try_fix_json (strip_fence (ustr ''{"a": ,'')) = Some (ustr ''{"a": }'') \<and>
   json_loads (ustr ''{"a": }'') =
     Inl (JSONDecodeError (ustr ''Expecting value'') (ustr ''{"a": }'') 6) \<and>
   safe_json (ustr ''{"a": ,'') =
     Inr (JObject [(ustr ''raw_output'', JString (ustr ''{"a": ,'')),
                   (ustr ''parse_error'', JString (ustr ''Expecting value: line 1 column 7 (char 6)'')),
                   (ustr ''error_position'', JInt 6)])\<close>
    using safe_json_catches_decode_errors
      [where raw = \<open>ustr ''{"a": ,''\<close> and m = \<open>ustr ''Expecting value''\<close>
         and d = \<open>ustr ''{"a": ,''\<close> and p = 6]
      h1 h2 h3 h4 h5 by (simp add: sf)
  from main h6 h7 h10 show ?thesis by blast
qed

end
